theory Spec2Isabelle
  imports Main "HOL-Library.Multiset" "HOL-Library.Log_Nat"
begin

section \<open>Generators and the Iter wrapper\<close>

text \<open>
  The library (src/index.ts) wraps a generator factory in a class \<open>Iter\<close>. Every
  combinator builds a new generator function around \<open>context.factory()\<close>; every terminal
  operation calls \<open>this.factory()\<close> and walks the generator it gets.

  A generator object is modelled by its local state (type \<open>'s\<close>: the loop counters and the
  state of the parent generator it iterates) together with the function that one call of
  \<open>next()\<close> runs. One call of \<open>next()\<close> resumes the body until the next \<open>yield\<close>, until the
  body returns, or until something throws; it may also run forever (a \<open>filter\<close> that never
  finds a match in an unbounded parent), which is the value \<open>None\<close>.

  Callbacks with effects (the inspector of \<open>inspect\<close>) act on an explicit world \<open>'w\<close>
  that is threaded through every call. Mappers, predicates, reducers and scanners are
  pure total functions, so the only exception that can arise is the one the host's
  \<open>structuredClone\<close> throws inside \<open>pairwise\<close>; it leaves every enclosing generator and
  the terminal operation, as an uncaught exception does. Leaving a \<open>for...of\<close> loop early
  (\<open>break\<close> in \<open>take\<close>, \<open>return\<close> in \<open>every\<close>) closes the parent generator; no generator
  of the library has a \<open>finally\<close> block, so closing does nothing and the parent's state
  is simply dropped. The numbers of \<open>range\<close> are the integer-valued doubles and the two
  infinities, and \<open>i++\<close>, \<open>i--\<close> round as doubles do; fractions and \<open>NaN\<close> are not
  modelled.
\<close>

datatype error = DataCloneError

datatype ('a, 's) IteratorResult = Yield 'a 's | Done | Throw error

type_synonym ('a, 's, 'w) resume =
  "'s \<Rightarrow> 'w \<Rightarrow> (('a, 's) IteratorResult \<times> 'w) option"

text \<open>
  \<open>fresh\<close> is the state of the generator object that a call of \<open>factory()\<close> returns
  (the body has not started yet), \<open>gnext\<close> is its \<open>next()\<close>.
\<close>

record ('a, 's, 'w) Iter =
  fresh :: 's
  gnext :: "('a, 's, 'w) resume"

subsection \<open>Constructors\<close>

text \<open>\<open>fromArray\<close>: \<open>for (let i = 0; i < source.length; i++) yield source[i]\<close>.\<close>

definition fromArray_next :: "'a list \<Rightarrow> ('a, nat, 'w) resume" where
  "fromArray_next source i w =
     (if i < length source then Some (Yield (source ! i) (Suc i), w) else Some (Done, w))"

definition fromArray :: "'a list \<Rightarrow> ('a, nat, 'w) Iter" where
  "fromArray source = \<lparr>fresh = 0, gnext = fromArray_next source\<rparr>"

text \<open>
  The numbers \<open>range\<close> receives: integers and the two infinities. A JavaScript number
  is an IEEE double, with 53 significant bits: every integer of magnitude up to \<open>2^53\<close>
  is a number, and beyond that the numbers are the multiples of a power of two
  (\<open>2^(b - 53)\<close> for an integer of \<open>b\<close> bits). \<open>Num i\<close> stands for the number \<open>i\<close>, which
  is such an integer.

  \<open>round_double x\<close> is the number that an arithmetic operation with the exact integer
  result \<open>x\<close> returns: the nearest number, and of two equally near ones the one whose
  significand is even. (Adding or subtracting one never overflows.)
\<close>

datatype number = NegInfinity | Num int | Infinity

fun less_number :: "number \<Rightarrow> number \<Rightarrow> bool" where
  "less_number (Num a) (Num b) = (a < b)"
| "less_number NegInfinity NegInfinity = False"
| "less_number NegInfinity (Num b) = True"
| "less_number NegInfinity Infinity = True"
| "less_number (Num a) NegInfinity = False"
| "less_number (Num a) Infinity = True"
| "less_number Infinity b = False"

definition round_double :: "int \<Rightarrow> int" where
  "round_double x =
     (let m = \<bar>x\<bar>; k = bitlen m - 53 in
      if k \<le> 0 then x
      else
        (let u = 2 ^ nat k; q = m div u; r = m mod u;
             q' = (if 2 * r < u then q
                   else if u < 2 * r then q + 1
                   else if even q then q else q + 1)
         in sgn x * (q' * u)))"

text \<open>\<open>i++\<close> and \<open>i--\<close>: the sum is rounded; an infinity stays what it is.\<close>

fun incr :: "number \<Rightarrow> number" where
  "incr (Num i) = Num (round_double (i + 1))"
| "incr NegInfinity = NegInfinity"
| "incr Infinity = Infinity"

fun decr :: "number \<Rightarrow> number" where
  "decr (Num i) = Num (round_double (i - 1))"
| "decr NegInfinity = NegInfinity"
| "decr Infinity = Infinity"

text \<open>
  \<open>range\<close>: the direction \<open>isAsc = start < end\<close> is fixed by the two arguments; the state
  is the loop variable \<open>i\<close>.
\<close>

definition range_next :: "number \<Rightarrow> number \<Rightarrow> (number, number, 'w) resume" where
  "range_next start end i w =
     (let isAsc = less_number start end in
      if isAsc then
        (if less_number i end then Some (Yield i (incr i), w) else Some (Done, w))
      else
        (if less_number end i then Some (Yield i (decr i), w) else Some (Done, w)))"

definition range_Iter :: "number \<Rightarrow> number \<Rightarrow> (number, number, 'w) Iter" where
  "range_Iter start end = \<lparr>fresh = start, gnext = range_next start end\<rparr>"

subsection \<open>Combinators\<close>

text \<open>\<open>map\<close>: \<open>for (const item of context.factory()) yield predicate(item)\<close>.\<close>

definition map_next :: "('a \<Rightarrow> 'b) \<Rightarrow> ('a, 's, 'w) resume \<Rightarrow> ('b, 's, 'w) resume" where
  "map_next predicate pnext s w =
     (case pnext s w of
        None \<Rightarrow> None
      | Some (Done, w') \<Rightarrow> Some (Done, w')
      | Some (Throw e, w') \<Rightarrow> Some (Throw e, w')
      | Some (Yield item s', w') \<Rightarrow> Some (Yield (predicate item) s', w'))"

definition map_Iter :: "('a \<Rightarrow> 'b) \<Rightarrow> ('a, 's, 'w) Iter \<Rightarrow> ('b, 's, 'w) Iter" where
  "map_Iter predicate context =
     \<lparr>fresh = fresh context, gnext = map_next predicate (gnext context)\<rparr>"

text \<open>\<open>filter\<close>: one \<open>next()\<close> keeps pulling the parent until an item passes.\<close>

partial_function (option) filter_next ::
  "('a \<Rightarrow> bool) \<Rightarrow> ('a, 's, 'w) resume \<Rightarrow> ('a, 's, 'w) resume" where
  "filter_next predicate pnext s w =
     (case pnext s w of
        None \<Rightarrow> None
      | Some (Done, w') \<Rightarrow> Some (Done, w')
      | Some (Throw e, w') \<Rightarrow> Some (Throw e, w')
      | Some (Yield item s', w') \<Rightarrow>
          if predicate item then Some (Yield item s', w')
          else filter_next predicate pnext s' w')"

definition filter_Iter :: "('a \<Rightarrow> bool) \<Rightarrow> ('a, 's, 'w) Iter \<Rightarrow> ('a, 's, 'w) Iter" where
  "filter_Iter predicate context =
     \<lparr>fresh = fresh context, gnext = filter_next predicate (gnext context)\<rparr>"

text \<open>
  \<open>take\<close>: the counter \<open>i\<close> starts at 0; the bound is tested inside the loop body, that
  is after the parent has produced the next item. \<open>break\<close> ends the generator. The
  parameter \<open>count\<close> (written \<open>cnt\<close>) is a natural number: the claims are about
  \<open>n \<ge> 0\<close>.
\<close>

definition take_next :: "nat \<Rightarrow> ('a, 's, 'w) resume \<Rightarrow> ('a, nat \<times> 's, 'w) resume" where
  "take_next cnt pnext st w =
     (case pnext (snd st) w of
        None \<Rightarrow> None
      | Some (Done, w') \<Rightarrow> Some (Done, w')
      | Some (Throw e, w') \<Rightarrow> Some (Throw e, w')
      | Some (Yield item s', w') \<Rightarrow>
          if fst st \<ge> cnt then Some (Done, w')
          else Some (Yield item (fst st + 1, s'), w'))"

definition take_Iter :: "nat \<Rightarrow> ('a, 's, 'w) Iter \<Rightarrow> ('a, nat \<times> 's, 'w) Iter" where
  "take_Iter cnt context =
     \<lparr>fresh = (0, fresh context), gnext = take_next cnt (gnext context)\<rparr>"

text \<open>
  \<open>pairwise\<close>: \<open>arr\<close> starts empty; each item is pushed; when \<open>arr\<close> holds two items a
  structured clone of it is yielded and, on resumption, \<open>arr.splice(0, 1)\<close> drops the
  older item. \<open>structuredClone\<close> is a function of the host, not of the library: it is
  the parameter \<open>clone\<close>, which returns the copy or the exception it throws.
\<close>

partial_function (option) pairwise_next ::
  "('a list \<Rightarrow> error + 'a list) \<Rightarrow> ('a, 's, 'w) resume \<Rightarrow> 'a list \<Rightarrow> 's \<Rightarrow> 'w
     \<Rightarrow> (('a list, 'a list \<times> 's) IteratorResult \<times> 'w) option" where
  "pairwise_next clone pnext arr s w =
     (case pnext s w of
        None \<Rightarrow> None
      | Some (Done, w') \<Rightarrow> Some (Done, w')
      | Some (Throw e, w') \<Rightarrow> Some (Throw e, w')
      | Some (Yield item s', w') \<Rightarrow>
          (let arr' = arr @ [item] in
           if length arr' = 2 then
             (case clone arr' of
                Inl e \<Rightarrow> Some (Throw e, w')
              | Inr copy \<Rightarrow> Some (Yield copy (drop 1 arr', s'), w'))
           else pairwise_next clone pnext arr' s' w'))"

definition pairwise_Iter ::
  "('a list \<Rightarrow> error + 'a list) \<Rightarrow> ('a, 's, 'w) Iter \<Rightarrow> ('a list, 'a list \<times> 's, 'w) Iter" where
  "pairwise_Iter clone context =
     \<lparr>fresh = ([], fresh context),
      gnext = (\<lambda>st. pairwise_next clone (gnext context) (fst st) (snd st))\<rparr>"

text \<open>\<open>scan\<close>: \<open>val\<close> starts at \<open>initial\<close>; \<open>val = scanner(val, item); yield val\<close>.\<close>

definition scan_next :: "('b \<Rightarrow> 'a \<Rightarrow> 'b) \<Rightarrow> ('a, 's, 'w) resume \<Rightarrow> ('b, 'b \<times> 's, 'w) resume" where
  "scan_next scanner pnext st w =
     (case pnext (snd st) w of
        None \<Rightarrow> None
      | Some (Done, w') \<Rightarrow> Some (Done, w')
      | Some (Throw e, w') \<Rightarrow> Some (Throw e, w')
      | Some (Yield item s', w') \<Rightarrow>
          (let val = scanner (fst st) item in Some (Yield val (val, s'), w')))"

definition scan :: "('b \<Rightarrow> 'a \<Rightarrow> 'b) \<Rightarrow> 'b \<Rightarrow> ('a, 's, 'w) Iter \<Rightarrow> ('b, 'b \<times> 's, 'w) Iter" where
  "scan scanner initial context =
     \<lparr>fresh = (initial, fresh context), gnext = scan_next scanner (gnext context)\<rparr>"

text \<open>
  \<open>partition\<close>: two generator functions, each iterating its own call of
  \<open>context.factory()\<close>.
\<close>

partial_function (option) truthy ::
  "('a \<Rightarrow> bool) \<Rightarrow> ('a, 's, 'w) resume \<Rightarrow> ('a, 's, 'w) resume" where
  "truthy partitionFn pnext s w =
     (case pnext s w of
        None \<Rightarrow> None
      | Some (Done, w') \<Rightarrow> Some (Done, w')
      | Some (Throw e, w') \<Rightarrow> Some (Throw e, w')
      | Some (Yield item s', w') \<Rightarrow>
          if partitionFn item then Some (Yield item s', w')
          else truthy partitionFn pnext s' w')"

partial_function (option) falsy ::
  "('a \<Rightarrow> bool) \<Rightarrow> ('a, 's, 'w) resume \<Rightarrow> ('a, 's, 'w) resume" where
  "falsy partitionFn pnext s w =
     (case pnext s w of
        None \<Rightarrow> None
      | Some (Done, w') \<Rightarrow> Some (Done, w')
      | Some (Throw e, w') \<Rightarrow> Some (Throw e, w')
      | Some (Yield item s', w') \<Rightarrow>
          if \<not> partitionFn item then Some (Yield item s', w')
          else falsy partitionFn pnext s' w')"

definition partition_Iter ::
  "('a \<Rightarrow> bool) \<Rightarrow> ('a, 's, 'w) Iter \<Rightarrow> ('a, 's, 'w) Iter \<times> ('a, 's, 'w) Iter" where
  "partition_Iter partitionFn context =
     (\<lparr>fresh = fresh context, gnext = truthy partitionFn (gnext context)\<rparr>,
      \<lparr>fresh = fresh context, gnext = falsy partitionFn (gnext context)\<rparr>)"

text \<open>\<open>inspect\<close>: \<open>inspector(item); yield item\<close>. The inspector acts on the world.\<close>

definition inspect_next :: "('a \<Rightarrow> 'w \<Rightarrow> 'w) \<Rightarrow> ('a, 's, 'w) resume \<Rightarrow> ('a, 's, 'w) resume" where
  "inspect_next inspector pnext s w =
     (case pnext s w of
        None \<Rightarrow> None
      | Some (Done, w') \<Rightarrow> Some (Done, w')
      | Some (Throw e, w') \<Rightarrow> Some (Throw e, w')
      | Some (Yield item s', w') \<Rightarrow> Some (Yield item s', inspector item w'))"

definition inspect :: "('a \<Rightarrow> 'w \<Rightarrow> 'w) \<Rightarrow> ('a, 's, 'w) Iter \<Rightarrow> ('a, 's, 'w) Iter" where
  "inspect inspector context =
     \<lparr>fresh = fresh context, gnext = inspect_next inspector (gnext context)\<rparr>"

subsection \<open>Terminal operations\<close>

text \<open>
  A terminal operation returns its value or the exception that escaped, with the world
  it left behind; \<open>None\<close> when it never returns.

  \<open>collect\<close>: \<open>[...this.factory()]\<close>. The spread calls \<open>next()\<close> until \<open>done\<close>.
\<close>

partial_function (option) spread ::
  "('a, 's, 'w) resume \<Rightarrow> 'a list \<Rightarrow> 's \<Rightarrow> 'w \<Rightarrow> ((error + 'a list) \<times> 'w) option" where
  "spread gen items s w =
     (case gen s w of
        None \<Rightarrow> None
      | Some (Done, w') \<Rightarrow> Some (Inr items, w')
      | Some (Throw e, w') \<Rightarrow> Some (Inl e, w')
      | Some (Yield item s', w') \<Rightarrow> spread gen (items @ [item]) s' w')"

definition collect :: "('a, 's, 'w) Iter \<Rightarrow> 'w \<Rightarrow> ((error + 'a list) \<times> 'w) option" where
  "collect this w = spread (gnext this) [] (fresh this) w"

text \<open>\<open>reduce\<close> (src/index.ts): \<open>acc = reducer(acc, item)\<close> over all items.\<close>

partial_function (option) reduce_loop ::
  "('b \<Rightarrow> 'a \<Rightarrow> 'b) \<Rightarrow> ('a, 's, 'w) resume \<Rightarrow> 'b \<Rightarrow> 's \<Rightarrow> 'w \<Rightarrow> ((error + 'b) \<times> 'w) option" where
  "reduce_loop reducer gen acc s w =
     (case gen s w of
        None \<Rightarrow> None
      | Some (Done, w') \<Rightarrow> Some (Inr acc, w')
      | Some (Throw e, w') \<Rightarrow> Some (Inl e, w')
      | Some (Yield item s', w') \<Rightarrow> reduce_loop reducer gen (reducer acc item) s' w')"

definition reduce ::
  "('b \<Rightarrow> 'a \<Rightarrow> 'b) \<Rightarrow> 'b \<Rightarrow> ('a, 's, 'w) Iter \<Rightarrow> 'w \<Rightarrow> ((error + 'b) \<times> 'w) option" where
  "reduce reducer initial this w = reduce_loop reducer (gnext this) initial (fresh this) w"

text \<open>\<open>fold\<close> (dist/index.d.ts): \<open>acc = predicate(acc, item)\<close> over all items.\<close>

partial_function (option) fold_loop ::
  "('b \<Rightarrow> 'a \<Rightarrow> 'b) \<Rightarrow> ('a, 's, 'w) resume \<Rightarrow> 'b \<Rightarrow> 's \<Rightarrow> 'w \<Rightarrow> ((error + 'b) \<times> 'w) option" where
  "fold_loop predicate gen acc s w =
     (case gen s w of
        None \<Rightarrow> None
      | Some (Done, w') \<Rightarrow> Some (Inr acc, w')
      | Some (Throw e, w') \<Rightarrow> Some (Inl e, w')
      | Some (Yield item s', w') \<Rightarrow> fold_loop predicate gen (predicate acc item) s' w')"

definition fold_Iter ::
  "'b \<Rightarrow> ('b \<Rightarrow> 'a \<Rightarrow> 'b) \<Rightarrow> ('a, 's, 'w) Iter \<Rightarrow> 'w \<Rightarrow> ((error + 'b) \<times> 'w) option" where
  "fold_Iter initial predicate this w = fold_loop predicate (gnext this) initial (fresh this) w"

text \<open>\<open>every\<close>: \<open>return false\<close> at the first item that fails, \<open>true\<close> after the loop.\<close>

partial_function (option) every_loop ::
  "('a \<Rightarrow> bool) \<Rightarrow> ('a, 's, 'w) resume \<Rightarrow> 's \<Rightarrow> 'w \<Rightarrow> ((error + bool) \<times> 'w) option" where
  "every_loop predicate gen s w =
     (case gen s w of
        None \<Rightarrow> None
      | Some (Done, w') \<Rightarrow> Some (Inr True, w')
      | Some (Throw e, w') \<Rightarrow> Some (Inl e, w')
      | Some (Yield item s', w') \<Rightarrow>
          if \<not> predicate item then Some (Inr False, w')
          else every_loop predicate gen s' w')"

definition every :: "('a \<Rightarrow> bool) \<Rightarrow> ('a, 's, 'w) Iter \<Rightarrow> 'w \<Rightarrow> ((error + bool) \<times> 'w) option" where
  "every predicate this w = every_loop predicate (gnext this) (fresh this) w"

section \<open>Observing a traversal\<close>

text \<open>
  \<open>yields gen s w xs\<close>: pulling the generator \<open>length xs\<close> times from state \<open>s\<close> in
  world \<open>w\<close> yields exactly the items \<open>xs\<close>; the result is the state and the world after
  the last of these pulls. It speaks about a prefix only, so it applies to generators
  that never end.
\<close>

primrec yields :: "('a, 's, 'w) resume \<Rightarrow> 's \<Rightarrow> 'w \<Rightarrow> 'a list \<Rightarrow> ('s \<times> 'w) option" where
  "yields gen s w [] = Some (s, w)"
| "yields gen s w (x # xs) =
     (case gen s w of
        Some (Yield item s', w') \<Rightarrow> if item = x then yields gen s' w' xs else None
      | _ \<Rightarrow> None)"

text \<open>
  \<open>produces gen s w xs w'\<close>: the generator is finite from \<open>s\<close> in \<open>w\<close>: it yields exactly
  \<open>xs\<close>, then reports \<open>done\<close>, leaving the world \<open>w'\<close>.
\<close>

primrec produces :: "('a, 's, 'w) resume \<Rightarrow> 's \<Rightarrow> 'w \<Rightarrow> 'a list \<Rightarrow> 'w \<Rightarrow> bool" where
  "produces gen s w [] w' = (gen s w = Some (Done, w'))"
| "produces gen s w (x # xs) w' =
     (case gen s w of
        Some (Yield item s', w1) \<Rightarrow> item = x \<and> produces gen s' w1 xs w'
      | _ \<Rightarrow> False)"

text \<open>
  A spy is the inspector that records every item it is called with (the \<open>jest.fn()\<close> of
  the test suite); the world is then the list of recorded calls.
\<close>

definition spy :: "'a \<Rightarrow> 'a list \<Rightarrow> 'a list" where
  "spy item calls = calls @ [item]"

text \<open>
  Traversing twice: \<open>collect()\<close> is called, and then called again on the same object, in
  the world the first call left. The result holds what the two calls returned.
\<close>

definition collect_twice ::
  "('a, 's, 'w) Iter \<Rightarrow> 'w \<Rightarrow> (((error + 'a list) \<times> (error + 'a list)) \<times> 'w) option" where
  "collect_twice this w =
     (case collect this w of
        None \<Rightarrow> None
      | Some (first, w1) \<Rightarrow>
          (case collect this w1 of
             None \<Rightarrow> None
           | Some (second, w2) \<Rightarrow> Some ((first, second), w2)))"

text \<open>
  A producer is re-invocable when what \<open>next()\<close> returns (the item and the state it moves
  to, or \<open>done\<close>, or the exception) does not depend on the world, that is on anything an
  earlier traversal may have left behind. It may still act on the world.
\<close>

definition reinvocable :: "('a, 's, 'w) resume \<Rightarrow> bool" where
  "reinvocable gen = (\<forall>s w v. map_option fst (gen s w) = map_option fst (gen s v))"

section \<open>The host's structured clone\<close>

text \<open>
  \<open>structuredClone\<close> belongs to the host platform, not to the repository. On the
  JavaScript values below it behaves as the platform documents: a function or a symbol,
  at any depth, cannot be cloned and the call throws \<open>DataCloneError\<close>; numbers,
  strings and arrays of cloneable values are copied, and the copy equals the original.
  \<open>pairwise\<close> calls it on the two-element array \<open>arr\<close>.
\<close>

datatype jsval = JNumber int | JString string | JFunction nat | JSymbol nat | JArray "jsval list"

fun cloneable :: "jsval \<Rightarrow> bool" where
  "cloneable (JNumber n) = True"
| "cloneable (JString s) = True"
| "cloneable (JFunction f) = False"
| "cloneable (JSymbol s) = False"
| "cloneable (JArray vs) = list_all cloneable vs"

definition structuredClone :: "jsval list \<Rightarrow> error + jsval list" where
  "structuredClone arr = (if list_all cloneable arr then Inr arr else Inl DataCloneError)"

section \<open>Traversals of the combinators\<close>

text \<open>
  How a traversal of each combinator follows from a traversal of its parent.
\<close>

lemma spread_produces:
  "produces gen s w xs w' \<Longrightarrow> spread gen items s w = Some (Inr (items @ xs), w')"
proof (induction xs arbitrary: s w items)
  case Nil
  then show ?case by (subst spread.simps) simp
next
  case (Cons x xs)
  then show ?case
    by (subst spread.simps) (auto split: option.splits prod.splits IteratorResult.splits)
qed

lemma spread_yields:
  "yields gen s w xs = Some (s', w') \<Longrightarrow> spread gen items s w = spread gen (items @ xs) s' w'"
proof (induction xs arbitrary: s w items)
  case Nil
  then show ?case by simp
next
  case (Cons x xs)
  then show ?case
    by (subst spread.simps) (auto split: option.splits prod.splits IteratorResult.splits if_splits)
qed

lemma produces_cong_step:
  "gen s w = gen s1 w1 \<Longrightarrow> produces gen s w xs w' = produces gen s1 w1 xs w'"
  by (cases xs) simp_all

lemma produces_map:
  "produces pnext s w xs w' \<Longrightarrow> produces (map_next f pnext) s w (map f xs) w'"
  by (induction xs arbitrary: s w)
     (auto simp: map_next_def split: option.splits prod.splits IteratorResult.splits)

lemma produces_filter:
  "produces pnext s w xs w' \<Longrightarrow> produces (filter_next p pnext) s w (filter p xs) w'"
proof (induction xs arbitrary: s w)
  case Nil
  then show ?case by (simp add: filter_next.simps)
next
  case (Cons x xs)
  from Cons.prems obtain s1 w1 where
    step: "pnext s w = Some (Yield x s1, w1)" and rest: "produces pnext s1 w1 xs w'"
    by (auto split: option.splits prod.splits IteratorResult.splits)
  have IH: "produces (filter_next p pnext) s1 w1 (filter p xs) w'"
    using Cons.IH [OF rest] .
  show ?case
  proof (cases "p x")
    case True
    then have "filter_next p pnext s w = Some (Yield x s1, w1)"
      using step by (subst filter_next.simps) simp
    then show ?thesis using True IH by simp
  next
    case False
    then have "filter_next p pnext s w = filter_next p pnext s1 w1"
      using step by (subst filter_next.simps) simp
    from produces_cong_step [OF this] show ?thesis using False IH by simp
  qed
qed

lemma produces_fromArray:
  "produces (fromArray_next xs) i w (drop i xs) w"
proof (induction "length xs - i" arbitrary: i)
  case 0
  then show ?case by (simp add: fromArray_next_def)
next
  case (Suc k)
  then have lt: "i < length xs" by simp
  have "k = length xs - Suc i" using Suc.hyps(2) by simp
  from Suc.hyps(1) [OF this] have "produces (fromArray_next xs) (Suc i) w (drop (Suc i) xs) w" .
  moreover have "drop i xs = xs ! i # drop (Suc i) xs" using lt by (simp add: Cons_nth_drop_Suc)
  ultimately show ?case using lt by (simp add: fromArray_next_def)
qed

lemma collect_fromArray: "collect (fromArray xs) w = Some (Inr xs, w)"
  using spread_produces [OF produces_fromArray [of xs 0 w], of "[]"]
  by (simp add: collect_def fromArray_def)


text \<open>
  Rounding: an integer of magnitude up to \<open>2^53\<close> is a number, \<open>2^53 + 1\<close> is not and
  rounds to \<open>2^53\<close>, and rounding never takes a result from \<open>2^53\<close> or above to below it.
\<close>

lemma bitlen_le_53: "\<bar>x\<bar> < 2 ^ 53 \<Longrightarrow> bitlen \<bar>x\<bar> \<le> 53"
  by (simp add: bitlen_le_iff_power)

lemma round_double_small: "\<bar>x\<bar> < 2 ^ 53 \<Longrightarrow> round_double x = x"
  using bitlen_le_53 [of x] by (simp add: round_double_def Let_def)

lemma bitlen_54: "2 ^ 53 \<le> m \<Longrightarrow> m < 2 ^ 54 \<Longrightarrow> bitlen m = 54"
proof -
  assume a: "(2 :: int) ^ 53 \<le> m" and b: "m < 2 ^ 54"
  have "bitlen m \<le> 54" using b by (simp add: bitlen_le_iff_power)
  moreover have "\<not> bitlen m \<le> 53" using a by (simp add: bitlen_le_iff_power)
  ultimately show ?thesis by linarith
qed

lemma round_double_pow53: "\<bar>x\<bar> = 2 ^ 53 \<Longrightarrow> round_double x = x"
proof -
  assume a: "\<bar>x\<bar> = 2 ^ 53"
  then have b: "bitlen \<bar>x\<bar> = 54" by (simp add: bitlen_54)
  have "sgn x * \<bar>x\<bar> = x" by (simp add: mult_sgn_abs)
  with a b show ?thesis by (simp add: round_double_def Let_def)
qed

lemma round_double_safe: "\<bar>x\<bar> \<le> 2 ^ 53 \<Longrightarrow> round_double x = x"
  using round_double_small [of x] round_double_pow53 [of x] by linarith

lemma round_double_stall: "round_double (2 ^ 53 + 1) = 2 ^ 53"
proof -
  have "bitlen \<bar>2 ^ 53 + 1 :: int\<bar> = 54" by (simp add: bitlen_54)
  then show ?thesis by (simp add: round_double_def Let_def)
qed

lemma round_double_large:
  assumes "2 ^ 53 \<le> x"
  shows "2 ^ 53 \<le> round_double x"
proof -
  from assms have pos: "0 < x" by (smt (verit) zero_less_power)
  define k where "k = bitlen x - 53"
  have "\<not> bitlen x \<le> 53" using assms by (simp add: bitlen_le_iff_power)
  then have k: "0 < k" by (simp add: k_def)
  define u :: int where "u = 2 ^ nat k"
  have "(2 :: int) ^ 1 \<le> 2 ^ nat k" using k by (intro power_increasing) simp_all
  then have u2: "2 \<le> u" by (simp add: u_def)
  have "nat (bitlen x - 1) = 52 + nat k" using k by (simp add: k_def)
  with bitlen_bounds [OF pos] have "2 ^ (52 + nat k) \<le> x" by simp
  then have low: "2 ^ 52 * u \<le> x" by (simp add: u_def power_add)
  define q where "q = x div u"
  have "(2 ^ 52 * u) div u \<le> x div u" using low u2 by (intro zdiv_mono1) simp_all
  then have q: "2 ^ 52 \<le> q" using u2 by (simp add: q_def)
  define q' where "q' = (if 2 * (x mod u) < u then q
      else if u < 2 * (x mod u) then q + 1 else if even q then q else q + 1)"
  have "q \<le> q'" by (simp add: q'_def)
  with q have "2 ^ 52 \<le> q'" by simp
  then have "2 ^ 52 * 2 \<le> q' * u" using u2 by (intro mult_mono) simp_all
  then have "2 ^ 53 \<le> q' * u" by simp
  moreover have "round_double x = q' * u"
    using pos k by (simp add: round_double_def Let_def k_def u_def q_def q'_def)
  ultimately show ?thesis by simp
qed

lemma round_double_ge3: "3 \<le> x \<Longrightarrow> 3 \<le> round_double x"
proof (cases "x < 2 ^ 53")
  case True
  assume "3 \<le> x"
  with True have "\<bar>x\<bar> < 2 ^ 53" by simp
  from round_double_small [OF this] \<open>3 \<le> x\<close> show ?thesis by simp
next
  case False
  then have "2 ^ 53 \<le> round_double x" using round_double_large [of x] by simp
  then show ?thesis by simp
qed

lemma produces_range_asc:
  "s < e \<Longrightarrow> i \<le> e \<Longrightarrow> - (2 ^ 53) \<le> i \<Longrightarrow> e \<le> 2 ^ 53 \<Longrightarrow>
   produces (range_next (Num s) (Num e)) (Num i) w (map Num [i..e - 1]) w"
proof (induction "nat (e - i)" arbitrary: i)
  case 0
  then have "i = e" by simp
  with 0 show ?case by (simp add: range_next_def)
next
  case (Suc k)
  then have lt: "i < e" by linarith
  have k: "k = nat (e - (i + 1))" using Suc.hyps(2) by linarith
  have "\<bar>i + 1\<bar> \<le> 2 ^ 53" using lt Suc.prems by simp
  then have r: "round_double (i + 1) = i + 1" by (rule round_double_safe)
  from Suc.hyps(1) [OF k Suc.prems(1)] lt Suc.prems
  have "produces (range_next (Num s) (Num e)) (Num (i + 1)) w (map Num [i + 1..e - 1]) w" by simp
  moreover have "[i..e - 1] = i # [i + 1..e - 1]" using lt by (simp add: upto_rec1)
  moreover have "range_next (Num s) (Num e) (Num i) w = Some (Yield (Num i) (Num (i + 1)), w)"
    using lt Suc.prems(1) r by (simp add: range_next_def)
  ultimately show ?case by simp
qed

lemma produces_range_desc:
  "\<not> s < e \<Longrightarrow> e \<le> i \<Longrightarrow> - (2 ^ 53) \<le> e \<Longrightarrow> i \<le> 2 ^ 53 \<Longrightarrow>
   produces (range_next (Num s) (Num e)) (Num i) w (map Num (rev [e + 1..i])) w"
proof (induction "nat (i - e)" arbitrary: i)
  case 0
  then have "i = e" by simp
  with 0 show ?case by (simp add: range_next_def)
next
  case (Suc k)
  then have lt: "e < i" by linarith
  have k: "k = nat ((i - 1) - e)" using Suc.hyps(2) by linarith
  have "\<bar>i - 1\<bar> \<le> 2 ^ 53" using lt Suc.prems by simp
  then have r: "round_double (i - 1) = i - 1" by (rule round_double_safe)
  from Suc.hyps(1) [OF k Suc.prems(1)] lt Suc.prems
  have "produces (range_next (Num s) (Num e)) (Num (i - 1)) w (map Num (rev [e + 1..i - 1])) w"
    by simp
  moreover have "[e + 1..i] = [e + 1..i - 1] @ [i]" using lt by (simp add: upto_rec2)
  moreover have "range_next (Num s) (Num e) (Num i) w = Some (Yield (Num i) (Num (i - 1)), w)"
    using lt Suc.prems(1) r by (simp add: range_next_def)
  ultimately show ?case by simp
qed

lemma funpow_incr_Cons:
  "map (\<lambda>k. (incr ^^ k) x) [0..<Suc n] = x # map (\<lambda>k. (incr ^^ k) (incr x)) [0..<n]"
proof -
  have "[0..<Suc n] = 0 # map Suc [0..<n]"
    by (simp add: upt_conv_Cons map_Suc_upt del: upt_Suc)
  then show ?thesis by (simp add: funpow_swap1 del: upt_Suc)
qed

lemma yields_range_unbounded:
  "yields (range_next (Num s) Infinity) (Num i) w (map (\<lambda>k. (incr ^^ k) (Num i)) [0..<n])
     = Some ((incr ^^ n) (Num i), w)"
proof (induction n arbitrary: i)
  case 0
  then show ?case by simp
next
  case (Suc n)
  have step: "range_next (Num s) Infinity (Num i) w = Some (Yield (Num i) (incr (Num i)), w)"
    by (simp add: range_next_def)
  have "(incr ^^ Suc n) (Num i) = (incr ^^ n) (incr (Num i))" by (simp add: funpow_swap1)
  then show ?case
    unfolding funpow_incr_Cons using step Suc.IH [of "round_double (i + 1)"] by simp
qed

lemma funpow_incr_safe:
  "- (2 ^ 53) \<le> i \<Longrightarrow> i + int n \<le> 2 ^ 53 \<Longrightarrow> (incr ^^ n) (Num i) = Num (i + int n)"
proof (induction n)
  case 0
  then show ?case by simp
next
  case (Suc n)
  then have "\<bar>i + int n + 1\<bar> \<le> 2 ^ 53" by simp
  then have "round_double (i + int n + 1) = i + int n + 1" by (rule round_double_safe)
  with Suc show ?case by (simp add: add.assoc)
qed

lemma map_funpow_incr_safe:
  "- (2 ^ 53) \<le> i \<Longrightarrow> i + int n \<le> 2 ^ 53 + 1 \<Longrightarrow>
   map (\<lambda>k. (incr ^^ k) (Num i)) [0..<n] = map Num [i..i + int n - 1]"
proof (induction n)
  case 0
  then show ?case by simp
next
  case (Suc n)
  then have "(incr ^^ n) (Num i) = Num (i + int n)" by (intro funpow_incr_safe) simp_all
  moreover have "[i..i + int n] = [i..i + int n - 1] @ [i + int n]" by (simp add: upto_rec2)
  ultimately show ?case using Suc by simp
qed

lemma produces_take_short:
  "produces pnext s w xs w' \<Longrightarrow> i + length xs \<le> n \<Longrightarrow>
   produces (take_next n pnext) (i, s) w xs w'"
  by (induction xs arbitrary: i s w)
     (auto simp: take_next_def split: option.splits prod.splits IteratorResult.splits)

lemma produces_take_long:
  "yields pnext s w xs = Some (s', w') \<Longrightarrow> i + length xs = Suc n \<Longrightarrow> i \<le> n \<Longrightarrow>
   produces (take_next n pnext) (i, s) w (butlast xs) w'"
proof (induction xs arbitrary: i s w)
  case Nil
  then show ?case by simp
next
  case (Cons x xs)
  from Cons.prems(1) obtain s1 w1 where
    step: "pnext s w = Some (Yield x s1, w1)" and rest: "yields pnext s1 w1 xs = Some (s', w')"
    by (auto split: option.splits prod.splits IteratorResult.splits if_splits)
  show ?case
  proof (cases xs)
    case Nil
    with Cons.prems rest step show ?thesis by (simp add: take_next_def)
  next
    case (Cons y ys)
    with Cons.prems have lt: "i < n" and len: "Suc i + length xs = Suc n" by simp_all
    from Cons.IH [OF rest len] lt
    have "produces (take_next n pnext) (Suc i, s1) w1 (butlast xs) w'" by simp
    moreover have "butlast (x # xs) = x # butlast xs" using Cons by simp
    moreover have "take_next n pnext (i, s) w = Some (Yield x (Suc i, s1), w1)"
      using step lt by (simp add: take_next_def)
    ultimately show ?thesis by simp
  qed
qed

lemma yields_prefix:
  "produces gen s w xs w' \<Longrightarrow> \<exists>s' w1. yields gen s w (take k xs) = Some (s', w1)"
proof (induction xs arbitrary: s w k)
  case Nil
  then show ?case by simp
next
  case (Cons x xs)
  then show ?case
    by (cases k) (auto split: option.splits prod.splits IteratorResult.splits)
qed

lemma produces_take:
  assumes "produces pnext s w xs w'"
  shows "\<exists>w''. produces (take_next n pnext) (0, s) w (take n xs) w''"
proof (cases "length xs \<le> n")
  case True
  with produces_take_short [OF assms, of 0 n] show ?thesis by auto
next
  case False
  then have len: "length (take (Suc n) xs) = Suc n" by simp
  from yields_prefix [OF assms, of "Suc n"] obtain s' w1
    where "yields pnext s w (take (Suc n) xs) = Some (s', w1)" by blast
  from produces_take_long [OF this, of 0 n] len
  have "produces (take_next n pnext) (0, s) w (butlast (take (Suc n) xs)) w1" by simp
  moreover have "butlast (take (Suc n) xs) = take n xs"
    using False by (simp add: butlast_take)
  ultimately show ?thesis by auto
qed

lemma yields_inspect_fromArray:
  "i + k \<le> length ys \<Longrightarrow>
   yields (inspect_next spy (fromArray_next ys)) i calls (take k (drop i ys))
     = Some (i + k, calls @ take k (drop i ys))"
proof (induction k arbitrary: i calls)
  case 0
  then show ?case by simp
next
  case (Suc k)
  then have lt: "i < length ys" by simp
  then have "take (Suc k) (drop i ys) = ys ! i # take k (drop (Suc i) ys)"
    by (simp add: Cons_nth_drop_Suc [symmetric])
  moreover have "Suc i + k \<le> length ys" using Suc.prems by simp
  note Suc.IH [OF this, of "calls @ [ys ! i]"]
  ultimately show ?case using lt
    by (simp add: inspect_next_def fromArray_next_def spy_def)
qed

lemma produces_inspect_fromArray:
  "produces (inspect_next g (fromArray_next ys)) i w (drop i ys)
     (foldl (\<lambda>w x. g x w) w (drop i ys))"
proof (induction "length ys - i" arbitrary: i w)
  case 0
  then show ?case by (simp add: inspect_next_def fromArray_next_def)
next
  case (Suc k)
  then have lt: "i < length ys" by simp
  have "k = length ys - Suc i" using Suc.hyps(2) by simp
  note IH = Suc.hyps(1) [OF this, of "g (ys ! i) w"]
  have "drop i ys = ys ! i # drop (Suc i) ys" using lt by (simp add: Cons_nth_drop_Suc)
  then show ?case using lt IH by (simp add: inspect_next_def fromArray_next_def)
qed

lemma foldl_spy: "foldl (\<lambda>w x. spy x w) calls xs = calls @ xs"
  by (induction xs arbitrary: calls) (simp_all add: spy_def)


lemma produces_scan:
  "produces pnext s w xs w' \<Longrightarrow>
   produces (scan_next f pnext) (v, s) w
     (map (\<lambda>k. foldl f v (take (Suc k) xs)) [0..<length xs]) w'"
proof (induction xs arbitrary: v s w)
  case Nil
  then show ?case by (simp add: scan_next_def)
next
  case (Cons x xs)
  from Cons.prems obtain s1 w1 where
    step: "pnext s w = Some (Yield x s1, w1)" and rest: "produces pnext s1 w1 xs w'"
    by (auto split: option.splits prod.splits IteratorResult.splits)
  have first: "scan_next f pnext (v, s) w = Some (Yield (f v x) (f v x, s1), w1)"
    using step by (simp add: scan_next_def Let_def)
  have "map (\<lambda>k. foldl f v (take (Suc k) (x # xs))) [0..<length (x # xs)]
      = f v x # map (\<lambda>k. foldl f (f v x) (take (Suc k) xs)) [0..<length xs]"
    by (simp add: upt_conv_Cons map_Suc_upt [symmetric] del: upt_Suc)
  then show ?case using first Cons.IH [OF rest, of "f v x"] by simp
qed

lemma produces_truthy:
  "produces pnext s w xs w' \<Longrightarrow> produces (truthy p pnext) s w (filter p xs) w'"
proof (induction xs arbitrary: s w)
  case Nil
  then show ?case by (simp add: truthy.simps)
next
  case (Cons x xs)
  from Cons.prems obtain s1 w1 where
    step: "pnext s w = Some (Yield x s1, w1)" and rest: "produces pnext s1 w1 xs w'"
    by (auto split: option.splits prod.splits IteratorResult.splits)
  have IH: "produces (truthy p pnext) s1 w1 (filter p xs) w'"
    using Cons.IH [OF rest] .
  show ?case
  proof (cases "p x")
    case True
    then have "truthy p pnext s w = Some (Yield x s1, w1)"
      using step by (subst truthy.simps) simp
    then show ?thesis using True IH by simp
  next
    case False
    then have "truthy p pnext s w = truthy p pnext s1 w1"
      using step by (subst truthy.simps) simp
    from produces_cong_step [OF this] show ?thesis using False IH by simp
  qed
qed

lemma produces_falsy:
  "produces pnext s w xs w' \<Longrightarrow> produces (falsy p pnext) s w (filter (\<lambda>x. \<not> p x) xs) w'"
proof (induction xs arbitrary: s w)
  case Nil
  then show ?case by (simp add: falsy.simps)
next
  case (Cons x xs)
  from Cons.prems obtain s1 w1 where
    step: "pnext s w = Some (Yield x s1, w1)" and rest: "produces pnext s1 w1 xs w'"
    by (auto split: option.splits prod.splits IteratorResult.splits)
  have IH: "produces (falsy p pnext) s1 w1 (filter (\<lambda>x. \<not> p x) xs) w'"
    using Cons.IH [OF rest] .
  show ?case
  proof (cases "p x")
    case False
    then have "falsy p pnext s w = Some (Yield x s1, w1)"
      using step by (subst falsy.simps) simp
    then show ?thesis using False IH by simp
  next
    case True
    then have "falsy p pnext s w = falsy p pnext s1 w1"
      using step by (subst falsy.simps) simp
    from produces_cong_step [OF this] show ?thesis using True IH by simp
  qed
qed

lemma reduce_loop_produces:
  "produces gen s w xs w' \<Longrightarrow> reduce_loop f gen acc s w = Some (Inr (foldl f acc xs), w')"
proof (induction xs arbitrary: s w acc)
  case Nil
  then show ?case by (subst reduce_loop.simps) simp
next
  case (Cons x xs)
  then show ?case
    by (subst reduce_loop.simps) (auto split: option.splits prod.splits IteratorResult.splits)
qed

lemma fold_loop_produces:
  "produces gen s w xs w' \<Longrightarrow> fold_loop f gen acc s w = Some (Inr (foldl f acc xs), w')"
proof (induction xs arbitrary: s w acc)
  case Nil
  then show ?case by (subst fold_loop.simps) simp
next
  case (Cons x xs)
  then show ?case
    by (subst fold_loop.simps) (auto split: option.splits prod.splits IteratorResult.splits)
qed


lemma reduce_le_fold:
  assumes "reduce_loop f gen acc s w = Some r"
  shows "fold_loop f gen acc s w = Some r"
proof (rule reduce_loop.raw_induct
    [where P = "\<lambda>f gen acc s w r. fold_loop f gen acc s w = Some r", OF _ assms])
  fix loop f gen acc s w r
  assume IH: "\<And>f gen acc s w r. loop f gen acc s w = Some r \<Longrightarrow> fold_loop f gen acc s w = Some r"
    and body: "(case gen s w of None \<Rightarrow> None
      | Some (Yield item s', w') \<Rightarrow> loop f gen (f acc item) s' w'
      | Some (Done, w') \<Rightarrow> Some (Inr acc, w')
      | Some (Throw e, w') \<Rightarrow> Some (Inl e, w')) = Some r"
  show "fold_loop f gen acc s w = Some r"
    using body IH
    by (subst fold_loop.simps) (auto split: option.splits prod.splits IteratorResult.splits)
qed

lemma fold_le_reduce:
  assumes "fold_loop f gen acc s w = Some r"
  shows "reduce_loop f gen acc s w = Some r"
proof (rule fold_loop.raw_induct
    [where P = "\<lambda>f gen acc s w r. reduce_loop f gen acc s w = Some r", OF _ assms])
  fix loop f gen acc s w r
  assume IH: "\<And>f gen acc s w r. loop f gen acc s w = Some r \<Longrightarrow> reduce_loop f gen acc s w = Some r"
    and body: "(case gen s w of None \<Rightarrow> None
      | Some (Yield item s', w') \<Rightarrow> loop f gen (f acc item) s' w'
      | Some (Done, w') \<Rightarrow> Some (Inr acc, w')
      | Some (Throw e, w') \<Rightarrow> Some (Inl e, w')) = Some r"
  show "reduce_loop f gen acc s w = Some r"
    using body IH
    by (subst reduce_loop.simps) (auto split: option.splits prod.splits IteratorResult.splits)
qed

lemma reduce_loop_eq_fold_loop: "reduce_loop f gen acc s w = fold_loop f gen acc s w"
proof (cases "reduce_loop f gen acc s w")
  case None
  then show ?thesis using fold_le_reduce [of f gen acc s w]
    by (cases "fold_loop f gen acc s w") auto
next
  case (Some r)
  then show ?thesis using reduce_le_fold by fastforce
qed

lemma every_loop_all:
  "produces gen s w xs w' \<Longrightarrow> \<forall>x\<in>set xs. p x \<Longrightarrow> every_loop p gen s w = Some (Inr True, w')"
proof (induction xs arbitrary: s w)
  case Nil
  then show ?case by (subst every_loop.simps) simp
next
  case (Cons x xs)
  then show ?case
    by (subst every_loop.simps) (auto split: option.splits prod.splits IteratorResult.splits)
qed

lemma every_loop_fail:
  "yields gen s w (xs @ [x]) = Some (s', w') \<Longrightarrow> \<forall>y\<in>set xs. p y \<Longrightarrow> \<not> p x \<Longrightarrow>
   every_loop p gen s w = Some (Inr False, w')"
proof (induction xs arbitrary: s w)
  case Nil
  then show ?case
    by (subst every_loop.simps) (auto split: option.splits prod.splits IteratorResult.splits if_splits)
next
  case (Cons y ys)
  then show ?case
    by (subst every_loop.simps) (auto split: option.splits prod.splits IteratorResult.splits if_splits)
qed

lemma produces_pairwise_one:
  "produces pnext s w xs w' \<Longrightarrow>
   \<forall>(a, b)\<in>set (zip (a0 # xs) xs). clone [a, b] = Inr (copy a b) \<Longrightarrow>
   produces (\<lambda>st. pairwise_next clone pnext (fst st) (snd st)) ([a0], s) w
     (map (\<lambda>(a, b). copy a b) (zip (a0 # xs) xs)) w'"
proof (induction xs arbitrary: a0 s w)
  case Nil
  then show ?case by (simp add: pairwise_next.simps)
next
  case (Cons x xs)
  from Cons.prems(1) obtain s1 w1 where
    step: "pnext s w = Some (Yield x s1, w1)" and rest: "produces pnext s1 w1 xs w'"
    by (auto split: option.splits prod.splits IteratorResult.splits)
  from Cons.prems(2) have c: "clone [a0, x] = Inr (copy a0 x)"
    and cs: "\<forall>(a, b)\<in>set (zip (x # xs) xs). clone [a, b] = Inr (copy a b)" by simp_all
  have "pairwise_next clone pnext [a0] s w = Some (Yield (copy a0 x) ([x], s1), w1)"
    using step c by (subst pairwise_next.simps) simp
  then show ?case using Cons.IH [OF rest cs] by simp
qed

lemma produces_pairwise:
  assumes "produces pnext s w xs w'"
    and "\<forall>(a, b)\<in>set (zip xs (tl xs)). clone [a, b] = Inr (copy a b)"
  shows "produces (\<lambda>st. pairwise_next clone pnext (fst st) (snd st)) ([], s) w
     (map (\<lambda>(a, b). copy a b) (zip xs (tl xs))) w'"
proof (cases xs)
  case Nil
  with assms show ?thesis by (simp add: pairwise_next.simps)
next
  case (Cons x xs')
  with assms(1) obtain s1 w1 where
    step: "pnext s w = Some (Yield x s1, w1)" and rest: "produces pnext s1 w1 xs' w'"
    by (auto split: option.splits prod.splits IteratorResult.splits)
  have "pairwise_next clone pnext [] s w = pairwise_next clone pnext [x] s1 w1"
    using step by (subst pairwise_next.simps) simp
  then have "(\<lambda>st. pairwise_next clone pnext (fst st) (snd st)) ([], s) w
      = (\<lambda>st. pairwise_next clone pnext (fst st) (snd st)) ([x], s1) w1" by simp
  from produces_cong_step [OF this]
    produces_pairwise_one [OF rest, of x clone copy] assms(2) Cons
  show ?thesis by simp
qed

lemma pairwise_throws:
  assumes "yields pnext s w [x0, x1] = Some (s', w')" and "clone [x0, x1] = Inl e"
  shows "spread (\<lambda>st. pairwise_next clone pnext (fst st) (snd st)) [] ([], s) w = Some (Inl e, w')"
proof -
  from assms(1) obtain s1 w1 where
    one: "pnext s w = Some (Yield x0 s1, w1)" and two: "pnext s1 w1 = Some (Yield x1 s', w')"
    by (auto split: option.splits prod.splits IteratorResult.splits if_splits)
  have "pairwise_next clone pnext [x0] s1 w1 = Some (Throw e, w')"
    using two assms(2) by (subst pairwise_next.simps) simp
  then have "pairwise_next clone pnext [] s w = Some (Throw e, w')"
    using one by (subst pairwise_next.simps) simp
  then show ?thesis by (subst spread.simps) simp
qed

lemma pairwise_first_yield:
  assumes "yields pnext s w [x0, x1] = Some (s', w')" and "clone [x0, x1] = Inr c"
  shows "pairwise_next clone pnext [] s w = Some (Yield c ([x1], s'), w')"
proof -
  from assms(1) obtain s1 w1 where
    one: "pnext s w = Some (Yield x0 s1, w1)" and two: "pnext s1 w1 = Some (Yield x1 s', w')"
    by (auto split: option.splits prod.splits IteratorResult.splits if_splits)
  have "pairwise_next clone pnext [x0] s1 w1 = Some (Yield c ([x1], s'), w')"
    using two assms(2) by (subst pairwise_next.simps) simp
  then show ?thesis
    using one by (subst pairwise_next.simps) simp
qed

subsection \<open>Re-invocable producers\<close>

lemma reinvocableD:
  "reinvocable gen \<Longrightarrow> gen s w = Some (r, w') \<Longrightarrow> \<exists>v'. gen s v = Some (r, v')"
proof -
  assume a: "reinvocable gen" and b: "gen s w = Some (r, w')"
  from a have "map_option fst (gen s w) = map_option fst (gen s v)"
    unfolding reinvocable_def by blast
  with b show ?thesis by (cases "gen s v") auto
qed

lemma reinvocableI:
  assumes "\<And>s w v r w'. gen s w = Some (r, w') \<Longrightarrow> \<exists>v'. gen s v = Some (r, v')"
  shows "reinvocable gen"
  unfolding reinvocable_def
proof (intro allI)
  fix s w v
  show "map_option fst (gen s w) = map_option fst (gen s v)"
  proof (cases "gen s w")
    case None
    show ?thesis
    proof (cases "gen s v")
      case None
      with \<open>gen s w = None\<close> show ?thesis by simp
    next
      case (Some a)
      then obtain r v' where "gen s v = Some (r, v')" by (cases a) auto
      from assms [OF this, of w] \<open>gen s w = None\<close> show ?thesis by simp
    qed
  next
    case (Some a)
    then obtain r w' where e: "gen s w = Some (r, w')" by (cases a) auto
    from assms [OF this, of v] e show ?thesis by auto
  qed
qed

lemma reinvocable_fromArray: "reinvocable (fromArray_next xs)"
  by (simp add: reinvocable_def fromArray_next_def)

lemma reinvocable_range: "reinvocable (range_next a b)"
  by (simp add: reinvocable_def range_next_def Let_def)

lemma reinvocable_map: "reinvocable pnext \<Longrightarrow> reinvocable (map_next f pnext)"
proof (rule reinvocableI)
  fix s w v r w'
  assume a: "reinvocable pnext" and b: "map_next f pnext s w = Some (r, w')"
  from b obtain r0 w0 where p: "pnext s w = Some (r0, w0)"
    by (auto simp: map_next_def split: option.splits)
  from reinvocableD [OF a p, of v] obtain v0 where "pnext s v = Some (r0, v0)" by blast
  with p b show "\<exists>v'. map_next f pnext s v = Some (r, v')"
    by (auto simp: map_next_def split: IteratorResult.splits)
qed

lemma reinvocable_inspect: "reinvocable pnext \<Longrightarrow> reinvocable (inspect_next g pnext)"
proof (rule reinvocableI)
  fix s w v r w'
  assume a: "reinvocable pnext" and b: "inspect_next g pnext s w = Some (r, w')"
  from b obtain r0 w0 where p: "pnext s w = Some (r0, w0)"
    by (auto simp: inspect_next_def split: option.splits)
  from reinvocableD [OF a p, of v] obtain v0 where "pnext s v = Some (r0, v0)" by blast
  with p b show "\<exists>v'. inspect_next g pnext s v = Some (r, v')"
    by (auto simp: inspect_next_def split: IteratorResult.splits)
qed

lemma reinvocable_take: "reinvocable pnext \<Longrightarrow> reinvocable (take_next n pnext)"
proof (rule reinvocableI)
  fix s w v r w'
  assume a: "reinvocable pnext" and b: "take_next n pnext s w = Some (r, w')"
  from b obtain r0 w0 where p: "pnext (snd s) w = Some (r0, w0)"
    by (auto simp: take_next_def split: option.splits)
  from reinvocableD [OF a p, of v] obtain v0 where "pnext (snd s) v = Some (r0, v0)" by blast
  with p b show "\<exists>v'. take_next n pnext s v = Some (r, v')"
    by (auto simp: take_next_def split: IteratorResult.splits if_splits)
qed

lemma reinvocable_scan: "reinvocable pnext \<Longrightarrow> reinvocable (scan_next f pnext)"
proof (rule reinvocableI)
  fix s w v r w'
  assume a: "reinvocable pnext" and b: "scan_next f pnext s w = Some (r, w')"
  from b obtain r0 w0 where p: "pnext (snd s) w = Some (r0, w0)"
    by (auto simp: scan_next_def split: option.splits)
  from reinvocableD [OF a p, of v] obtain v0 where "pnext (snd s) v = Some (r0, v0)" by blast
  with p b show "\<exists>v'. scan_next f pnext s v = Some (r, v')"
    by (auto simp: scan_next_def Let_def split: IteratorResult.splits)
qed

lemma filter_next_any_world:
  assumes "filter_next p pnext s w = Some y"
  shows "reinvocable pnext \<longrightarrow> (\<forall>v. \<exists>v'. filter_next p pnext s v = Some (fst y, v'))"
proof (rule filter_next.raw_induct
    [where P = "\<lambda>p pnext s w y. reinvocable pnext \<longrightarrow> (\<forall>v. \<exists>v'. filter_next p pnext s v = Some (fst y, v'))",
     OF _ assms])
  fix loop p pnext s w y
  assume IH: "\<And>p pnext s w y. loop p pnext s w = Some y \<Longrightarrow>
      reinvocable pnext \<longrightarrow> (\<forall>v. \<exists>v'. filter_next p pnext s v = Some (fst y, v'))"
    and body: "(case pnext s w of None \<Rightarrow> None
      | Some (Yield item s', w') \<Rightarrow> if p item then Some (Yield item s', w') else loop p pnext s' w'
      | Some (Done, w') \<Rightarrow> Some (Done, w')
      | Some (Throw e, w') \<Rightarrow> Some (Throw e, w')) = Some y"
  show "reinvocable pnext \<longrightarrow> (\<forall>v. \<exists>v'. filter_next p pnext s v = Some (fst y, v'))"
  proof (intro impI allI)
    fix v
    assume re: "reinvocable pnext"
    from body obtain r0 w0 where p0: "pnext s w = Some (r0, w0)"
      by (auto split: option.splits)
    from reinvocableD [OF re p0, of v] obtain v0 where pv: "pnext s v = Some (r0, v0)" by blast
    show "\<exists>v'. filter_next p pnext s v = Some (fst y, v')"
    proof (cases r0)
      case (Yield item s')
      show ?thesis
      proof (cases "p item")
        case True
        with body p0 pv Yield show ?thesis by (subst filter_next.simps) auto
      next
        case False
        with body p0 Yield have "loop p pnext s' w0 = Some y" by simp
        from IH [OF this] re obtain v' where "filter_next p pnext s' v0 = Some (fst y, v')" by blast
        with False pv Yield show ?thesis by (subst filter_next.simps) simp
      qed
    next
      case Done
      with body p0 pv show ?thesis by (subst filter_next.simps) auto
    next
      case (Throw e)
      with body p0 pv show ?thesis by (subst filter_next.simps) auto
    qed
  qed
qed

lemma reinvocable_filter: "reinvocable pnext \<Longrightarrow> reinvocable (filter_next p pnext)"
proof (rule reinvocableI)
  fix s w v r w'
  assume a: "reinvocable pnext" and b: "filter_next p pnext s w = Some (r, w')"
  from filter_next_any_world [OF b] a show "\<exists>v'. filter_next p pnext s v = Some (r, v')" by simp
qed

lemma spread_any_world:
  assumes "spread gen items s w = Some y"
  shows "reinvocable gen \<longrightarrow> (\<forall>v. \<exists>v'. spread gen items s v = Some (fst y, v'))"
proof (rule spread.raw_induct
    [where P = "\<lambda>gen items s w y. reinvocable gen \<longrightarrow> (\<forall>v. \<exists>v'. spread gen items s v = Some (fst y, v'))",
     OF _ assms])
  fix loop gen items s w y
  assume IH: "\<And>gen items s w y. loop gen items s w = Some y \<Longrightarrow>
      reinvocable gen \<longrightarrow> (\<forall>v. \<exists>v'. spread gen items s v = Some (fst y, v'))"
    and body: "(case gen s w of None \<Rightarrow> None
      | Some (Yield item s', w') \<Rightarrow> loop gen (items @ [item]) s' w'
      | Some (Done, w') \<Rightarrow> Some (Inr items, w')
      | Some (Throw e, w') \<Rightarrow> Some (Inl e, w')) = Some y"
  show "reinvocable gen \<longrightarrow> (\<forall>v. \<exists>v'. spread gen items s v = Some (fst y, v'))"
  proof (intro impI allI)
    fix v
    assume re: "reinvocable gen"
    from body obtain r0 w0 where p0: "gen s w = Some (r0, w0)"
      by (auto split: option.splits)
    from reinvocableD [OF re p0, of v] obtain v0 where pv: "gen s v = Some (r0, v0)" by blast
    show "\<exists>v'. spread gen items s v = Some (fst y, v')"
    proof (cases r0)
      case (Yield item s')
      with body p0 have "loop gen (items @ [item]) s' w0 = Some y" by simp
      from IH [OF this] re obtain v' where "spread gen (items @ [item]) s' v0 = Some (fst y, v')"
        by blast
      with pv Yield show ?thesis by (subst spread.simps) simp
    next
      case Done
      with body p0 pv show ?thesis by (subst spread.simps) auto
    next
      case (Throw e)
      with body p0 pv show ?thesis by (subst spread.simps) auto
    qed
  qed
qed

lemma produces_any_world:
  "reinvocable gen \<Longrightarrow> produces gen s w xs w' \<Longrightarrow> \<exists>v'. produces gen s v xs v'"
proof (induction xs arbitrary: s w v)
  case Nil
  then show ?case using reinvocableD [of gen s w Done w' v] by simp
next
  case (Cons x xs)
  from Cons.prems(2) obtain s1 w1 where
    step: "gen s w = Some (Yield x s1, w1)" and rest: "produces gen s1 w1 xs w'"
    by (auto split: option.splits prod.splits IteratorResult.splits)
  from reinvocableD [OF Cons.prems(1) step, of v] obtain v1
    where "gen s v = Some (Yield x s1, v1)" by blast
  moreover from Cons.IH [OF Cons.prems(1) rest, of v1] obtain v'
    where "produces gen s1 v1 xs v'" by blast
  ultimately show ?case by auto
qed

subsection \<open>Collecting a range\<close>

lemma collect_range:
  assumes "\<bar>s\<bar> \<le> 2 ^ 53" and "\<bar>e\<bar> \<le> 2 ^ 53"
  shows "collect (range_Iter (Num s) (Num e)) w =
     Some (Inr (if s < e then map Num [s..e - 1] else map Num (rev [e + 1..s])), w)"
proof (cases "s < e")
  case True
  have "produces (range_next (Num s) (Num e)) (Num s) w (map Num [s..e - 1]) w"
    using True assms by (intro produces_range_asc) simp_all
  from spread_produces [OF this, of "[]"] True
  show ?thesis by (simp add: collect_def range_Iter_def)
next
  case False
  have "produces (range_next (Num s) (Num e)) (Num s) w (map Num (rev [e + 1..s])) w"
    using False assms by (intro produces_range_desc) simp_all
  from spread_produces [OF this, of "[]"] False
  show ?thesis by (simp add: collect_def range_Iter_def)
qed

lemma collect_range_empty: "collect (range_Iter (Num s) (Num s)) w = Some (Inr [], w)"
proof -
  have "produces (range_next (Num s) (Num s)) (Num s) w [] w" by (simp add: range_next_def)
  from spread_produces [OF this, of "[]"] show ?thesis by (simp add: collect_def range_Iter_def)
qed

lemma spread_range_stalls:
  assumes "spread gen items s w = Some y"
  shows "gen = range_next (Num (2 ^ 53)) (Num (2 ^ 53 + 2)) \<longrightarrow> s = Num (2 ^ 53) \<longrightarrow> False"
proof (rule spread.raw_induct
    [where P = "\<lambda>gen items s w y.
        gen = range_next (Num (2 ^ 53)) (Num (2 ^ 53 + 2)) \<longrightarrow> s = Num (2 ^ 53) \<longrightarrow> False",
     OF _ assms])
  fix loop gen items s w y
  assume IH: "\<And>gen items s w y. loop gen items s w = Some y \<Longrightarrow>
      gen = range_next (Num (2 ^ 53)) (Num (2 ^ 53 + 2)) \<longrightarrow> s = Num (2 ^ 53) \<longrightarrow> False"
    and body: "(case gen s w of None \<Rightarrow> None
      | Some (Yield item s', w') \<Rightarrow> loop gen (items @ [item]) s' w'
      | Some (Done, w') \<Rightarrow> Some (Inr items, w')
      | Some (Throw e, w') \<Rightarrow> Some (Inl e, w')) = Some y"
  show "gen = range_next (Num (2 ^ 53)) (Num (2 ^ 53 + 2)) \<longrightarrow> s = Num (2 ^ 53) \<longrightarrow> False"
  proof (intro impI)
    assume g: "gen = range_next (Num (2 ^ 53)) (Num (2 ^ 53 + 2))" and st: "s = Num (2 ^ 53)"
    have "gen s w = Some (Yield (Num (2 ^ 53)) (Num (2 ^ 53)), w)"
      using round_double_stall by (simp add: g st range_next_def)
    with body have "loop gen (items @ [Num (2 ^ 53)]) s w = Some y" by (simp add: st)
    from IH [OF this] g st show False by blast
  qed
qed

lemma collect_range_stalls:
  "collect (range_Iter (Num (2 ^ 53)) (Num (2 ^ 53 + 2))) w = None"
proof (cases "collect (range_Iter (Num (2 ^ 53)) (Num (2 ^ 53 + 2))) w")
  case None
  then show ?thesis .
next
  case (Some y)
  then have "spread (range_next (Num (2 ^ 53)) (Num (2 ^ 53 + 2))) [] (Num (2 ^ 53)) w = Some y"
    by (simp add: collect_def range_Iter_def)
  from spread_range_stalls [OF this] show ?thesis by blast
qed

subsection \<open>Collecting after take\<close>

lemma collect_take_short:
  assumes "produces (gnext P) (fresh P) w xs w'" and "length xs \<le> n"
  shows "collect (take_Iter n P) w = Some (Inr xs, w')"
proof -
  from produces_take_short [OF assms(1), of 0 n] assms(2)
  have "produces (take_next n (gnext P)) (0, fresh P) w xs w'" by simp
  from spread_produces [OF this, of "[]"] show ?thesis
    by (simp add: collect_def take_Iter_def)
qed

lemma collect_take_long:
  assumes "yields (gnext P) (fresh P) w xs = Some (s', w')" and "length xs = Suc n"
  shows "collect (take_Iter n P) w = Some (Inr (butlast xs), w')"
proof -
  from produces_take_long [OF assms(1), of 0 n] assms(2)
  have "produces (take_next n (gnext P)) (0, fresh P) w (butlast xs) w'" by simp
  from spread_produces [OF this, of "[]"] show ?thesis
    by (simp add: collect_def take_Iter_def)
qed

lemma collect_take:
  assumes "produces (gnext P) (fresh P) w xs w'"
  shows "\<exists>w''. collect (take_Iter n P) w = Some (Inr (take n xs), w'')"
proof -
  from produces_take [OF assms, of n] obtain w''
    where "produces (take_next n (gnext P)) (0, fresh P) w (take n xs) w''" by blast
  from spread_produces [OF this, of "[]"] show ?thesis
    by (simp add: collect_def take_Iter_def)
qed

lemma collect_take_spy_fromArray:
  "collect (take_Iter n (inspect spy (fromArray ys))) calls
     = Some (Inr (take n ys), calls @ take (Suc n) ys)"
proof (cases "length ys \<le> n")
  case True
  have "produces (gnext (inspect spy (fromArray ys))) (fresh (inspect spy (fromArray ys)))
          calls ys (calls @ ys)"
    using produces_inspect_fromArray [of spy ys 0 calls]
    by (simp add: inspect_def fromArray_def foldl_spy)
  from collect_take_short [OF this True] True show ?thesis by simp
next
  case False
  then have len: "length (take (Suc n) ys) = Suc n" by simp
  have "yields (gnext (inspect spy (fromArray ys))) (fresh (inspect spy (fromArray ys)))
          calls (take (Suc n) ys) = Some (Suc n, calls @ take (Suc n) ys)"
    using yields_inspect_fromArray [of 0 "Suc n" ys calls] False
    by (simp add: inspect_def fromArray_def)
  from collect_take_long [OF this len] False show ?thesis
    by (simp add: butlast_take)
qed


lemma collect_take_range_unbounded:
  "collect (take_Iter n (range_Iter (Num s) Infinity)) w
     = Some (Inr (map (\<lambda>k. (incr ^^ k) (Num s)) [0..<n]), w)"
proof -
  have "yields (gnext (range_Iter (Num s) Infinity)) (fresh (range_Iter (Num s) Infinity)) w
          (map (\<lambda>k. (incr ^^ k) (Num s)) [0..<Suc n]) = Some ((incr ^^ Suc n) (Num s), w)"
    using yields_range_unbounded [of s s w "Suc n"] by (simp add: range_Iter_def)
  from collect_take_long [OF this, of n] show ?thesis
    by (simp add: butlast_snoc)
qed

lemma collect_take_range_safe:
  assumes "- (2 ^ 53) \<le> s" and "s + int n \<le> 2 ^ 53"
  shows "collect (take_Iter n (range_Iter (Num s) Infinity)) w
     = Some (Inr (map Num [s..s + int n - 1]), w)"
  using collect_take_range_unbounded [of n s w] map_funpow_incr_safe [of s n] assms by simp



subsection \<open>Collecting after scan\<close>

lemma scan_outputs_Cons:
  "map (\<lambda>k. foldl f v (take (Suc k) (x # xs))) [0..<length (x # xs)]
     = f v x # map (\<lambda>k. foldl f (f v x) (take (Suc k) xs)) [0..<length xs]"
  by (simp add: upt_conv_Cons map_Suc_upt [symmetric] del: upt_Suc)

lemma yields_scan:
  "yields pnext s w xs = Some (s', w') \<Longrightarrow>
   yields (scan_next f pnext) (v, s) w
     (map (\<lambda>k. foldl f v (take (Suc k) xs)) [0..<length xs]) = Some ((foldl f v xs, s'), w')"
proof (induction xs arbitrary: v s w)
  case Nil
  then show ?case by simp
next
  case (Cons x xs)
  from Cons.prems obtain s1 w1 where
    step: "pnext s w = Some (Yield x s1, w1)" and rest: "yields pnext s1 w1 xs = Some (s', w')"
    by (auto split: option.splits prod.splits IteratorResult.splits if_splits)
  have first: "scan_next f pnext (v, s) w = Some (Yield (f v x) (f v x, s1), w1)"
    using step by (simp add: scan_next_def Let_def)
  show ?case
    unfolding scan_outputs_Cons using first Cons.IH [OF rest, of "f v x"] by simp
qed

lemma collect_scan:
  assumes "produces (gnext P) (fresh P) w xs w'"
  shows "collect (scan f initial P) w
     = Some (Inr (map (\<lambda>k. foldl f initial (take (Suc k) xs)) [0..<length xs]), w')"
  using spread_produces [OF produces_scan [OF assms, of f initial], of "[]"]
  by (simp add: collect_def scan_def)

lemma produces_fromArray_fresh:
  "produces (gnext (fromArray xs)) (fresh (fromArray xs)) w xs w"
  using produces_fromArray [of xs 0 w] by (simp add: fromArray_def)

subsection \<open>Collecting the branches of partition\<close>

lemma collect_truthy:
  assumes "produces (gnext S) (fresh S) w xs w'"
  shows "collect (fst (partition_Iter p S)) w = Some (Inr (filter p xs), w')"
  using spread_produces [OF produces_truthy [OF assms, of p], of "[]"]
  by (simp add: collect_def partition_Iter_def)

lemma collect_falsy:
  assumes "produces (gnext S) (fresh S) w xs w'"
  shows "collect (snd (partition_Iter p S)) w = Some (Inr (filter (\<lambda>x. \<not> p x) xs), w')"
  using spread_produces [OF produces_falsy [OF assms, of p], of "[]"]
  by (simp add: collect_def partition_Iter_def)

subsection \<open>Running every\<close>

lemma every_loop_produces:
  "produces gen s w xs w' \<Longrightarrow> \<exists>w''. every_loop p gen s w = Some (Inr (list_all p xs), w'')"
proof (induction xs arbitrary: s w)
  case Nil
  then show ?case by (subst every_loop.simps) simp
next
  case (Cons x xs)
  from Cons.prems obtain s1 w1 where
    step: "gen s w = Some (Yield x s1, w1)" and rest: "produces gen s1 w1 xs w'"
    by (auto split: option.splits prod.splits IteratorResult.splits)
  from Cons.IH [OF rest] obtain w'' where
    "every_loop p gen s1 w1 = Some (Inr (list_all p xs), w'')" by blast
  with step show ?case by (subst every_loop.simps) simp
qed

lemma every_loop_spy_fromArray:
  "every_loop p (inspect_next spy (fromArray_next ys)) i calls
     = Some (Inr (list_all p (drop i ys)),
             calls @ takeWhile p (drop i ys) @ take 1 (dropWhile p (drop i ys)))"
proof (induction "length ys - i" arbitrary: i calls)
  case 0
  then show ?case
    by (subst every_loop.simps) (simp add: inspect_next_def fromArray_next_def)
next
  case (Suc k)
  then have lt: "i < length ys" by simp
  have k: "k = length ys - Suc i" using Suc.hyps(2) by simp
  have d: "drop i ys = ys ! i # drop (Suc i) ys" using lt by (simp add: Cons_nth_drop_Suc)
  have step: "inspect_next spy (fromArray_next ys) i calls
      = Some (Yield (ys ! i) (Suc i), calls @ [ys ! i])"
    using lt by (simp add: inspect_next_def fromArray_next_def spy_def)
  show ?case
  proof (cases "p (ys ! i)")
    case True
    with step Suc.hyps(1) [OF k, of "calls @ [ys ! i]"] show ?thesis
      by (subst every_loop.simps) (simp add: d)
  next
    case False
    with step show ?thesis
      by (subst every_loop.simps) (simp add: d)
  qed
qed

subsection \<open>Re-invocable producers, continued\<close>

lemma truthy_any_world:
  assumes "truthy p pnext s w = Some y"
  shows "reinvocable pnext \<longrightarrow> (\<forall>v. \<exists>v'. truthy p pnext s v = Some (fst y, v'))"
proof (rule truthy.raw_induct
    [where P = "\<lambda>p pnext s w y. reinvocable pnext \<longrightarrow> (\<forall>v. \<exists>v'. truthy p pnext s v = Some (fst y, v'))",
     OF _ assms])
  fix loop p pnext s w y
  assume IH: "\<And>p pnext s w y. loop p pnext s w = Some y \<Longrightarrow>
      reinvocable pnext \<longrightarrow> (\<forall>v. \<exists>v'. truthy p pnext s v = Some (fst y, v'))"
    and body: "(case pnext s w of None \<Rightarrow> None
      | Some (Yield item s', w') \<Rightarrow> if p item then Some (Yield item s', w') else loop p pnext s' w'
      | Some (Done, w') \<Rightarrow> Some (Done, w')
      | Some (Throw e, w') \<Rightarrow> Some (Throw e, w')) = Some y"
  show "reinvocable pnext \<longrightarrow> (\<forall>v. \<exists>v'. truthy p pnext s v = Some (fst y, v'))"
  proof (intro impI allI)
    fix v
    assume re: "reinvocable pnext"
    from body obtain r0 w0 where p0: "pnext s w = Some (r0, w0)"
      by (auto split: option.splits)
    from reinvocableD [OF re p0, of v] obtain v0 where pv: "pnext s v = Some (r0, v0)" by blast
    show "\<exists>v'. truthy p pnext s v = Some (fst y, v')"
    proof (cases r0)
      case (Yield item s')
      show ?thesis
      proof (cases "p item")
        case True
        with body p0 pv Yield show ?thesis by (subst truthy.simps) auto
      next
        case False
        with body p0 Yield have "loop p pnext s' w0 = Some y" by simp
        from IH [OF this] re obtain v' where "truthy p pnext s' v0 = Some (fst y, v')" by blast
        with False pv Yield show ?thesis by (subst truthy.simps) simp
      qed
    next
      case Done
      with body p0 pv show ?thesis by (subst truthy.simps) auto
    next
      case (Throw e)
      with body p0 pv show ?thesis by (subst truthy.simps) auto
    qed
  qed
qed

lemma falsy_any_world:
  assumes "falsy p pnext s w = Some y"
  shows "reinvocable pnext \<longrightarrow> (\<forall>v. \<exists>v'. falsy p pnext s v = Some (fst y, v'))"
proof (rule falsy.raw_induct
    [where P = "\<lambda>p pnext s w y. reinvocable pnext \<longrightarrow> (\<forall>v. \<exists>v'. falsy p pnext s v = Some (fst y, v'))",
     OF _ assms])
  fix loop p pnext s w y
  assume IH: "\<And>p pnext s w y. loop p pnext s w = Some y \<Longrightarrow>
      reinvocable pnext \<longrightarrow> (\<forall>v. \<exists>v'. falsy p pnext s v = Some (fst y, v'))"
    and body: "(case pnext s w of None \<Rightarrow> None
      | Some (Yield item s', w') \<Rightarrow>
          if \<not> p item then Some (Yield item s', w') else loop p pnext s' w'
      | Some (Done, w') \<Rightarrow> Some (Done, w')
      | Some (Throw e, w') \<Rightarrow> Some (Throw e, w')) = Some y"
  show "reinvocable pnext \<longrightarrow> (\<forall>v. \<exists>v'. falsy p pnext s v = Some (fst y, v'))"
  proof (intro impI allI)
    fix v
    assume re: "reinvocable pnext"
    from body obtain r0 w0 where p0: "pnext s w = Some (r0, w0)"
      by (auto split: option.splits)
    from reinvocableD [OF re p0, of v] obtain v0 where pv: "pnext s v = Some (r0, v0)" by blast
    show "\<exists>v'. falsy p pnext s v = Some (fst y, v')"
    proof (cases r0)
      case (Yield item s')
      show ?thesis
      proof (cases "p item")
        case False
        with body p0 pv Yield show ?thesis by (subst falsy.simps) auto
      next
        case True
        with body p0 Yield have "loop p pnext s' w0 = Some y" by simp
        from IH [OF this] re obtain v' where "falsy p pnext s' v0 = Some (fst y, v')" by blast
        with True pv Yield show ?thesis by (subst falsy.simps) simp
      qed
    next
      case Done
      with body p0 pv show ?thesis by (subst falsy.simps) auto
    next
      case (Throw e)
      with body p0 pv show ?thesis by (subst falsy.simps) auto
    qed
  qed
qed

lemma pairwise_next_any_world:
  assumes "pairwise_next clone pnext arr s w = Some y"
  shows "reinvocable pnext \<longrightarrow>
    (\<forall>v. \<exists>v'. pairwise_next clone pnext arr s v = Some (fst y, v'))"
proof (rule pairwise_next.raw_induct
    [where P = "\<lambda>clone pnext arr s w y. reinvocable pnext \<longrightarrow>
        (\<forall>v. \<exists>v'. pairwise_next clone pnext arr s v = Some (fst y, v'))",
     OF _ assms])
  fix loop clone pnext arr s w y
  assume IH: "\<And>clone pnext arr s w y. loop clone pnext arr s w = Some y \<Longrightarrow>
      reinvocable pnext \<longrightarrow> (\<forall>v. \<exists>v'. pairwise_next clone pnext arr s v = Some (fst y, v'))"
    and body: "(case pnext s w of None \<Rightarrow> None
      | Some (Yield item s', w') \<Rightarrow>
          let arr' = arr @ [item]
          in if length arr' = 2
             then case clone arr' of Inl e \<Rightarrow> Some (Throw e, w')
                  | Inr copy \<Rightarrow> Some (Yield copy (drop 1 arr', s'), w')
             else loop clone pnext arr' s' w'
      | Some (Done, w') \<Rightarrow> Some (Done, w')
      | Some (Throw e, w') \<Rightarrow> Some (Throw e, w')) = Some y"
  show "reinvocable pnext \<longrightarrow> (\<forall>v. \<exists>v'. pairwise_next clone pnext arr s v = Some (fst y, v'))"
  proof (intro impI allI)
    fix v
    assume re: "reinvocable pnext"
    from body obtain r0 w0 where p0: "pnext s w = Some (r0, w0)"
      by (auto split: option.splits)
    from reinvocableD [OF re p0, of v] obtain v0 where pv: "pnext s v = Some (r0, v0)" by blast
    show "\<exists>v'. pairwise_next clone pnext arr s v = Some (fst y, v')"
    proof (cases r0)
      case (Yield item s')
      show ?thesis
      proof (cases "length (arr @ [item]) = 2")
        case True
        with body p0 pv Yield show ?thesis
          by (subst pairwise_next.simps) (auto simp: Let_def split: sum.splits)
      next
        case False
        with body p0 Yield have "loop clone pnext (arr @ [item]) s' w0 = Some y"
          by (simp add: Let_def)
        from IH [OF this] re obtain v'
          where "pairwise_next clone pnext (arr @ [item]) s' v0 = Some (fst y, v')" by blast
        with False pv Yield show ?thesis by (subst pairwise_next.simps) (simp add: Let_def)
      qed
    next
      case Done
      with body p0 pv show ?thesis by (subst pairwise_next.simps) auto
    next
      case (Throw e)
      with body p0 pv show ?thesis by (subst pairwise_next.simps) auto
    qed
  qed
qed

lemma reinvocable_truthy: "reinvocable pnext \<Longrightarrow> reinvocable (truthy p pnext)"
proof (rule reinvocableI)
  fix s w v r w'
  assume a: "reinvocable pnext" and b: "truthy p pnext s w = Some (r, w')"
  from truthy_any_world [OF b] a show "\<exists>v'. truthy p pnext s v = Some (r, v')" by simp
qed

lemma reinvocable_falsy: "reinvocable pnext \<Longrightarrow> reinvocable (falsy p pnext)"
proof (rule reinvocableI)
  fix s w v r w'
  assume a: "reinvocable pnext" and b: "falsy p pnext s w = Some (r, w')"
  from falsy_any_world [OF b] a show "\<exists>v'. falsy p pnext s v = Some (r, v')" by simp
qed

lemma reinvocable_pairwise:
  "reinvocable pnext \<Longrightarrow> reinvocable (\<lambda>st. pairwise_next clone pnext (fst st) (snd st))"
proof (rule reinvocableI)
  fix s w v r w'
  assume a: "reinvocable pnext"
    and b: "pairwise_next clone pnext (fst s) (snd s) w = Some (r, w')"
  from pairwise_next_any_world [OF b] a
  show "\<exists>v'. pairwise_next clone pnext (fst s) (snd s) v = Some (r, v')" by simp
qed

lemma collect_any_world:
  assumes "reinvocable (gnext it)" and "collect it w = Some (r, v)"
  shows "\<exists>u. collect it w' = Some (r, u)"
  using spread_any_world [of "gnext it" "[]" "fresh it" w "(r, v)"] assms
  by (simp add: collect_def)

lemma collect_twice_reinvocable:
  assumes "reinvocable (gnext it)" and "collect it w = Some (r, v)"
  shows "\<exists>u. collect_twice it w = Some ((r, r), u)"
proof -
  from collect_any_world [OF assms, of v] obtain u where "collect it v = Some (r, u)" by blast
  with assms(2) show ?thesis by (simp add: collect_twice_def)
qed

subsection \<open>Collecting after pairwise\<close>

lemma collect_pairwise_copies:
  assumes "produces (gnext P) (fresh P) w xs w'"
    and "\<forall>(a, b)\<in>set (zip xs (tl xs)). clone [a, b] = Inr (copy a b)"
  shows "collect (pairwise_Iter clone P) w
     = Some (Inr (map (\<lambda>(a, b). copy a b) (zip xs (tl xs))), w')"
  using spread_produces [OF produces_pairwise [OF assms], of "[]"]
  by (simp add: collect_def pairwise_Iter_def)

lemma collect_pairwise:
  assumes "produces (gnext P) (fresh P) w xs w'"
    and "\<forall>(a, b)\<in>set (zip xs (tl xs)). clone [a, b] = Inr [a, b]"
  shows "collect (pairwise_Iter clone P) w
     = Some (Inr (map (\<lambda>(a, b). [a, b]) (zip xs (tl xs))), w')"
  using collect_pairwise_copies [where copy = "\<lambda>a b. [a, b]", OF assms] .

lemma collect_pairwise_throws:
  assumes "yields (gnext P) (fresh P) w [x0, x1] = Some (s', w')" and "clone [x0, x1] = Inl e"
  shows "collect (pairwise_Iter clone P) w = Some (Inl e, w')"
  using pairwise_throws [where clone = clone, OF assms]
  by (simp add: collect_def pairwise_Iter_def)

lemma structuredClone_cloneable:
  "list_all cloneable ys \<Longrightarrow> \<forall>(a, b)\<in>set (zip ys (tl ys)). structuredClone [a, b] = Inr [a, b]"
proof -
  assume a: "list_all cloneable ys"
  have "\<And>a b. (a, b) \<in> set (zip ys (tl ys)) \<Longrightarrow> a \<in> set ys \<and> b \<in> set ys"
    by (metis in_set_zipE list.sel(2) list.set_sel(2))
  with a show ?thesis
    by (auto simp: structuredClone_def list_all_iff)
qed

subsection \<open>Collecting an array through each combinator\<close>

lemma collect_map_fromArray:
  "collect (map_Iter f (fromArray xs)) w = Some (Inr (map f xs), w)"
  using spread_produces [OF produces_map [OF produces_fromArray_fresh, of f xs w], of "[]"]
  by (simp add: collect_def map_Iter_def)

lemma collect_filter_fromArray:
  "collect (filter_Iter p (fromArray xs)) w = Some (Inr (filter p xs), w)"
  using spread_produces [OF produces_filter [OF produces_fromArray_fresh, of p xs w], of "[]"]
  by (simp add: collect_def filter_Iter_def)

lemma yields_fromArray:
  "i + k \<le> length xs \<Longrightarrow>
   yields (fromArray_next xs) i w (take k (drop i xs)) = Some (i + k, w)"
proof (induction k arbitrary: i)
  case 0
  then show ?case by simp
next
  case (Suc k)
  then have lt: "i < length xs" by simp
  then have "take (Suc k) (drop i xs) = xs ! i # take k (drop (Suc i) xs)"
    by (simp add: Cons_nth_drop_Suc [symmetric])
  moreover have "Suc i + k \<le> length xs" using Suc.prems by simp
  note Suc.IH [OF this]
  ultimately show ?case using lt by (simp add: fromArray_next_def)
qed

lemma collect_take_fromArray:
  "collect (take_Iter n (fromArray xs)) w = Some (Inr (take n xs), w)"
proof (cases "length xs \<le> n")
  case True
  from collect_take_short [OF produces_fromArray_fresh True, of w] True
  show ?thesis by simp
next
  case False
  then have len: "length (take (Suc n) xs) = Suc n" by simp
  have "yields (gnext (fromArray xs)) (fresh (fromArray xs)) w (take (Suc n) xs)
      = Some (Suc n, w)"
    using yields_fromArray [of 0 "Suc n" xs w] False by (simp add: fromArray_def)
  from collect_take_long [OF this len] False show ?thesis
    by (simp add: butlast_take)
qed

lemma collect_inspect_fromArray:
  "collect (inspect h (fromArray xs)) w = Some (Inr xs, foldl (\<lambda>w x. h x w) w xs)"
  using spread_produces [OF produces_inspect_fromArray [of h xs 0 w], of "[]"]
  by (simp add: collect_def inspect_def fromArray_def)

lemma collect_pairwise_uncloneable:
  assumes "\<not> cloneable a \<or> \<not> cloneable b"
  shows "collect (pairwise_Iter structuredClone (fromArray (a # b # rest))) w
     = Some (Inl DataCloneError, w)"
proof -
  have y: "yields (gnext (fromArray (a # b # rest))) (fresh (fromArray (a # b # rest))) w [a, b]
      = Some (2, w)"
    by (simp add: fromArray_def fromArray_next_def)
  have c: "structuredClone [a, b] = Inl DataCloneError"
    using assms by (auto simp: structuredClone_def)
  from collect_pairwise_throws [where clone = structuredClone, OF y c] show ?thesis .
qed

subsection \<open>A filtered unbounded range under take\<close>

lemma filter_below3_diverges:
  assumes "filter_next p gen s w = Some y"
  shows "p = (\<lambda>x. less_number x (Num 3)) \<longrightarrow> gen = range_next (Num 0) Infinity \<longrightarrow>
    (\<exists>i\<ge>3. s = Num i) \<longrightarrow> False"
proof (rule filter_next.raw_induct
    [where P = "\<lambda>p gen s w y. p = (\<lambda>x. less_number x (Num 3)) \<longrightarrow>
        gen = range_next (Num 0) Infinity \<longrightarrow> (\<exists>i\<ge>3. s = Num i) \<longrightarrow> False",
     OF _ assms])
  fix loop p gen s w y
  assume IH: "\<And>p gen s w y. loop p gen s w = Some y \<Longrightarrow>
      p = (\<lambda>x. less_number x (Num 3)) \<longrightarrow> gen = range_next (Num 0) Infinity \<longrightarrow>
      (\<exists>i\<ge>3. s = Num i) \<longrightarrow> False"
    and body: "(case gen s w of None \<Rightarrow> None
      | Some (Yield item s', w') \<Rightarrow> if p item then Some (Yield item s', w') else loop p gen s' w'
      | Some (Done, w') \<Rightarrow> Some (Done, w')
      | Some (Throw e, w') \<Rightarrow> Some (Throw e, w')) = Some y"
  show "p = (\<lambda>x. less_number x (Num 3)) \<longrightarrow> gen = range_next (Num 0) Infinity \<longrightarrow>
      (\<exists>i\<ge>3. s = Num i) \<longrightarrow> False"
  proof (intro impI)
    assume p: "p = (\<lambda>x. less_number x (Num 3))" and g: "gen = range_next (Num 0) Infinity"
      and "\<exists>i\<ge>3. s = Num i"
    then obtain i where i: "3 \<le> i" and st: "s = Num i" by blast
    have "gen s w = Some (Yield (Num i) (Num (round_double (i + 1))), w)"
      by (simp add: g st range_next_def)
    moreover have "\<not> p (Num i)" using i by (simp add: p)
    ultimately have "loop p gen (Num (round_double (i + 1))) w = Some y"
      using body by simp
    moreover have "3 \<le> round_double (i + 1)" using i by (intro round_double_ge3) simp
    ultimately show False using IH p g by blast
  qed
qed

lemma filter_below3_yields:
  assumes "0 \<le> i" and "i < 3"
  shows "filter_next (\<lambda>x. less_number x (Num 3)) (range_next (Num 0) Infinity) (Num i) w
     = Some (Yield (Num i) (Num (i + 1)), w)"
proof -
  have "\<bar>i + 1\<bar> \<le> 2 ^ 53" using assms by simp
  then have "round_double (i + 1) = i + 1" by (rule round_double_safe)
  then show ?thesis using assms
    by (subst filter_next.simps) (simp add: range_next_def)
qed

lemma take_filter_range_yields:
  "yields (gnext (take_Iter 3 (filter_Iter (\<lambda>x. less_number x (Num 3))
       (range_Iter (Num 0) Infinity))))
     (fresh (take_Iter 3 (filter_Iter (\<lambda>x. less_number x (Num 3))
       (range_Iter (Num 0) Infinity)))) w
     [Num 0, Num 1, Num 2] = Some ((3, Num 3), w)"
  using filter_below3_yields [of 0 w] filter_below3_yields [of 1 w] filter_below3_yields [of 2 w]
  by (simp add: take_Iter_def filter_Iter_def range_Iter_def take_next_def)

lemma take_filter_range_never_returns:
  "collect (take_Iter 3 (filter_Iter (\<lambda>x. less_number x (Num 3))
       (range_Iter (Num 0) Infinity))) w = None"
proof -
  let ?F = "filter_next (\<lambda>x. less_number x (Num 3)) (range_next (Num 0) Infinity)"
  let ?C = "take_Iter 3 (filter_Iter (\<lambda>x. less_number x (Num 3)) (range_Iter (Num 0) Infinity))"
  have "?F (Num 3) w = None"
  proof (cases "?F (Num 3) w")
    case None
    then show ?thesis .
  next
    case (Some y)
    from filter_below3_diverges [OF this] show ?thesis by blast
  qed
  then have stuck: "gnext ?C (3, Num 3) w = None"
    by (simp add: take_Iter_def filter_Iter_def range_Iter_def take_next_def)
  from spread_yields [OF take_filter_range_yields, of "[]" w]
  have "collect ?C w = spread (gnext ?C) [Num 0, Num 1, Num 2] (3, Num 3) w"
    by (simp add: collect_def)
  also have "\<dots> = None" using stuck by (subst spread.simps) simp
  finally show ?thesis .
qed

section \<open>The claims\<close>

subsection \<open>C1: take and the pull after the bound\<close>

text \<open>
  Claim C1 says that \<open>take(n)\<close> yields at most the first \<open>n\<close> elements of its parent and
  then stops pulling from the parent, which is what lets it end the traversal of an
  unbounded source. The code tests \<open>i >= count\<close> inside the loop body, after the loop
  has pulled the next item, so once \<open>n\<close> elements have been yielded it pulls the parent
  once more before it breaks. Evaluated:
  \<^item> \<open>fromArray([1,2,3]).inspect(spy).take(1).collect()\<close> returns \<open>[1]\<close>, and the spy has
    been called with \<open>1\<close> and with \<open>2\<close>;
  \<^item> \<open>range(0, +Infinity).filter(x => x < 3).take(3).collect()\<close> yields \<open>0, 1, 2\<close> and
    then never returns: the pull after the third element makes \<open>filter\<close> search the
    unbounded range for a fourth match;
  \<^item> the claim's own example \<open>range(0, +Infinity).take(5).collect()\<close> does return
    \<open>[0,1,2,3,4]\<close>: there the extra pull finds an item at once.
\<close>

theorem take_pulls_after_bound:
  "collect (take_Iter 1 (inspect spy (fromArray [1, 2, 3]) :: (int, nat, int list) Iter)) []
     = Some (Inr [1], [1, 2])
   \<and> yields (gnext (take_Iter 3 (filter_Iter (\<lambda>x. less_number x (Num 3))
          (range_Iter (Num 0) Infinity))))
        (fresh (take_Iter 3 (filter_Iter (\<lambda>x. less_number x (Num 3))
          (range_Iter (Num 0) Infinity)))) w
        [Num 0, Num 1, Num 2] = Some ((3, Num 3), w)
   \<and> collect (take_Iter 3 (filter_Iter (\<lambda>x. less_number x (Num 3))
          (range_Iter (Num 0) Infinity))) w = None
   \<and> collect (take_Iter 5 (range_Iter (Num 0) Infinity)) w
       = Some (Inr [Num 0, Num 1, Num 2, Num 3, Num 4], w)"
proof (intro conjI)
  show "collect (take_Iter 1 (inspect spy (fromArray [1, 2, 3]) :: (int, nat, int list) Iter)) []
     = Some (Inr [1], [1, 2])"
    by (simp add: collect_take_spy_fromArray)
next
  show "yields (gnext (take_Iter 3 (filter_Iter (\<lambda>x. less_number x (Num 3))
          (range_Iter (Num 0) Infinity))))
        (fresh (take_Iter 3 (filter_Iter (\<lambda>x. less_number x (Num 3))
          (range_Iter (Num 0) Infinity)))) w
        [Num 0, Num 1, Num 2] = Some ((3, Num 3), w)"
    by (rule take_filter_range_yields)
next
  show "collect (take_Iter 3 (filter_Iter (\<lambda>x. less_number x (Num 3))
          (range_Iter (Num 0) Infinity))) w = None"
    by (rule take_filter_range_never_returns)
next
  show "collect (take_Iter 5 (range_Iter (Num 0) Infinity)) w
       = Some (Inr [Num 0, Num 1, Num 2, Num 3, Num 4], w)"
    using collect_take_range_safe [of 0 5 w] by (simp add: upto_rec1)
qed

subsection \<open>C2: range\<close>

text \<open>
  Claim C2, as amended. For all integers \<open>start\<close> and \<open>end\<close> of magnitude at most \<open>2^53\<close>,
  \<open>range(start, end)\<close> collects to the integers from \<open>start\<close> toward \<open>end\<close>, \<open>end\<close>
  excluded: ascending by one when \<open>start < end\<close> (that is \<open>start, ..., end - 1\<close>),
  descending by one otherwise (that is \<open>start, ..., end + 1\<close>), and the empty array when
  \<open>start = end\<close> (for any \<open>start\<close>). In particular \<open>range(0,3)\<close> gives \<open>[0,1,2]\<close>,
  \<open>range(0,-4)\<close> gives \<open>[0,-1,-2,-3]\<close> and \<open>range(2,2)\<close> gives \<open>[]\<close>. The traversal returns
  and leaves the world as it was.
\<close>

theorem range_collect:
  "(\<bar>start\<bar> \<le> 2 ^ 53 \<and> \<bar>end\<bar> \<le> 2 ^ 53 \<longrightarrow>
      collect (range_Iter (Num start) (Num end)) w =
        Some (Inr (if start < end then map Num [start..end - 1]
                   else map Num (rev [end + 1..start])), w))
   \<and> collect (range_Iter (Num start) (Num start)) w = Some (Inr [], w)
   \<and> collect (range_Iter (Num 0) (Num 3)) w = Some (Inr [Num 0, Num 1, Num 2], w)
   \<and> collect (range_Iter (Num 0) (Num (- 4))) w
       = Some (Inr [Num 0, Num (- 1), Num (- 2), Num (- 3)], w)
   \<and> collect (range_Iter (Num 2) (Num 2)) w = Some (Inr [], w)"
proof (intro conjI impI)
  assume "\<bar>start\<bar> \<le> 2 ^ 53 \<and> \<bar>end\<bar> \<le> 2 ^ 53"
  then show "collect (range_Iter (Num start) (Num end)) w =
        Some (Inr (if start < end then map Num [start..end - 1]
                   else map Num (rev [end + 1..start])), w)"
    using collect_range [of start "end" w] by blast
next
  show "collect (range_Iter (Num start) (Num start)) w = Some (Inr [], w)"
    by (rule collect_range_empty)
next
  show "collect (range_Iter (Num 0) (Num 3)) w = Some (Inr [Num 0, Num 1, Num 2], w)"
    using collect_range [of 0 3 w] by (simp add: upto_rec1)
next
  show "collect (range_Iter (Num 0) (Num (- 4))) w
       = Some (Inr [Num 0, Num (- 1), Num (- 2), Num (- 3)], w)"
    using collect_range [of 0 "- 4" w] by (simp add: upto_rec1)
next
  show "collect (range_Iter (Num 2) (Num 2)) w = Some (Inr [], w)"
    by (rule collect_range_empty)
qed

text \<open>
  The hypothesis of the amended claim C2 holds at the upper and at the lower end of the
  bound: \<open>range(2^53 - 2, 2^53)\<close> and \<open>range(-(2^53 - 2), -2^53)\<close> each collect to two
  integers.
\<close>

theorem range_collect_witness:
  "\<bar>2 ^ 53 - 2 :: int\<bar> \<le> 2 ^ 53 \<and> \<bar>2 ^ 53 :: int\<bar> \<le> 2 ^ 53
   \<and> collect (range_Iter (Num (2 ^ 53 - 2)) (Num (2 ^ 53)) :: (number, number, unit) Iter) ()
       = Some (Inr [Num (2 ^ 53 - 2), Num (2 ^ 53 - 1)], ())
   \<and> \<bar>- (2 ^ 53 - 2) :: int\<bar> \<le> 2 ^ 53 \<and> \<bar>- (2 ^ 53) :: int\<bar> \<le> 2 ^ 53
   \<and> collect (range_Iter (Num (- (2 ^ 53 - 2))) (Num (- (2 ^ 53))) :: (number, number, unit) Iter) ()
       = Some (Inr [Num (- (2 ^ 53 - 2)), Num (- (2 ^ 53 - 1))], ())"
proof -
  have a: "\<bar>2 ^ 53 - 2 :: int\<bar> \<le> 2 ^ 53" and b: "\<bar>2 ^ 53 :: int\<bar> \<le> 2 ^ 53"
    and c: "\<bar>- (2 ^ 53 - 2) :: int\<bar> \<le> 2 ^ 53" and d: "\<bar>- (2 ^ 53) :: int\<bar> \<le> 2 ^ 53"
    by simp_all
  from range_collect [of "2 ^ 53 - 2" "2 ^ 53" "()",
      THEN conjunct1, THEN mp, OF conjI, OF a b]
  have up: "collect (range_Iter (Num (2 ^ 53 - 2)) (Num (2 ^ 53)) :: (number, number, unit) Iter) ()
       = Some (Inr [Num (2 ^ 53 - 2), Num (2 ^ 53 - 1)], ())"
    by (simp add: upto_rec1)
  from range_collect [of "- (2 ^ 53 - 2)" "- (2 ^ 53)" "()",
      THEN conjunct1, THEN mp, OF conjI, OF c d]
  have down: "collect (range_Iter (Num (- (2 ^ 53 - 2))) (Num (- (2 ^ 53)))
         :: (number, number, unit) Iter) ()
       = Some (Inr [Num (- (2 ^ 53 - 2)), Num (- (2 ^ 53 - 1))], ())"
    by (simp add: upto_rec1)
  from a b up c d down show ?thesis by blast
qed

text \<open>
  Claim C2 as stated fails: it speaks of all integers. \<open>2^53\<close> and \<open>2^53 + 2\<close> are
  JavaScript numbers, \<open>2^53 + 1\<close> is not: \<open>i++\<close> at \<open>2^53\<close> gives \<open>2^53\<close> again. So
  \<open>range(2^53, 2^53 + 2)\<close> yields \<open>2^53\<close> at every pull, and \<open>collect()\<close> never returns,
  where the claim promises \<open>[2^53, 2^53 + 1]\<close>.
\<close>

theorem range_beyond_safe_counterexample:
  "yields (gnext (range_Iter (Num (2 ^ 53)) (Num (2 ^ 53 + 2)) :: (number, number, unit) Iter))
     (fresh (range_Iter (Num (2 ^ 53)) (Num (2 ^ 53 + 2)) :: (number, number, unit) Iter)) ()
     [Num (2 ^ 53), Num (2 ^ 53), Num (2 ^ 53)] = Some (Num (2 ^ 53), ())
   \<and> collect (range_Iter (Num (2 ^ 53)) (Num (2 ^ 53 + 2)) :: (number, number, unit) Iter) ()
       = None"
proof
  show "yields (gnext (range_Iter (Num (2 ^ 53)) (Num (2 ^ 53 + 2)) :: (number, number, unit) Iter))
     (fresh (range_Iter (Num (2 ^ 53)) (Num (2 ^ 53 + 2)) :: (number, number, unit) Iter)) ()
     [Num (2 ^ 53), Num (2 ^ 53), Num (2 ^ 53)] = Some (Num (2 ^ 53), ())"
    using round_double_stall by (simp add: range_Iter_def range_next_def)
next
  show "collect (range_Iter (Num (2 ^ 53)) (Num (2 ^ 53 + 2)) :: (number, number, unit) Iter) ()
       = None"
    by (rule collect_range_stalls)
qed

subsection \<open>C3: scan\<close>

text \<open>
  Claim C3. For every sequence, function \<open>f\<close> and initial value, \<open>scan(f, initial)\<close> yields
  exactly one output per input element: for the \<open>k\<close>-th input the accumulator after
  \<open>acc = f(acc, e)\<close> has been applied to the inputs up to and including it, starting
  from \<open>initial\<close>, that is \<open>foldl f initial [e\<^sub>0, ..., e\<^sub>k]\<close>. The unmodified initial
  value is never emitted as an output of its own: there are as many outputs as inputs,
  the first is \<open>f(initial, e\<^sub>0)\<close>, and an empty input gives no output. This holds for a
  finite parent (collected) and for any prefix of a parent that need not end. With
  \<open>f = (a,b) => a+b\<close>, \<open>fromArray([1,2,3]).scan(f, 10).collect()\<close> is \<open>[11,13,16]\<close>.
\<close>

theorem scan_collect:
  "(produces (gnext P) (fresh P) w xs w' \<longrightarrow>
      collect (scan f initial P) w
        = Some (Inr (map (\<lambda>k. foldl f initial (take (Suc k) xs)) [0..<length xs]), w')
      \<and> length (map (\<lambda>k. foldl f initial (take (Suc k) xs)) [0..<length xs]) = length xs)
   \<and> (yields (gnext P) (fresh P) w xs = Some (s', w') \<longrightarrow>
      yields (gnext (scan f initial P)) (fresh (scan f initial P)) w
        (map (\<lambda>k. foldl f initial (take (Suc k) xs)) [0..<length xs])
        = Some ((foldl f initial xs, s'), w'))
   \<and> collect (scan f initial (fromArray [])) w = Some (Inr [], w)
   \<and> collect (scan (\<lambda>a b. a + b) 10 (fromArray [1, 2, 3 :: int])) w = Some (Inr [11, 13, 16], w)"
proof (intro conjI impI)
  assume "produces (gnext P) (fresh P) w xs w'"
  then show "collect (scan f initial P) w
        = Some (Inr (map (\<lambda>k. foldl f initial (take (Suc k) xs)) [0..<length xs]), w')"
    by (rule collect_scan)
next
  show "length (map (\<lambda>k. foldl f initial (take (Suc k) xs)) [0..<length xs]) = length xs"
    by simp
next
  assume "yields (gnext P) (fresh P) w xs = Some (s', w')"
  from yields_scan [OF this, of f initial]
  show "yields (gnext (scan f initial P)) (fresh (scan f initial P)) w
        (map (\<lambda>k. foldl f initial (take (Suc k) xs)) [0..<length xs])
        = Some ((foldl f initial xs, s'), w')"
    by (simp add: scan_def)
next
  show "collect (scan f initial (fromArray [])) w = Some (Inr [], w)"
    using collect_scan [OF produces_fromArray_fresh, of f initial "[]" w] by simp
next
  show "collect (scan (\<lambda>a b. a + b) 10 (fromArray [1, 2, 3 :: int])) w = Some (Inr [11, 13, 16], w)"
    using collect_scan [OF produces_fromArray_fresh, of "\<lambda>a b. a + b" 10 "[1, 2, 3 :: int]" w]
    by (simp add: upt_conv_Cons)
qed

text \<open>
  The hypotheses of claim C3 hold for \<open>fromArray([1,2,3])\<close>, with the non-associative
  \<open>f = (a,b) => a-b\<close>.
\<close>

theorem scan_collect_witness:
  "produces (gnext (fromArray [1, 2, 3] :: (int, nat, unit) Iter)) (fresh (fromArray [1, 2, 3] :: (int, nat, unit) Iter)) () [1, 2, 3] ()
   \<and> collect (scan (\<lambda>a b. a - b) 10 (fromArray [1, 2, 3] :: (int, nat, unit) Iter)) () = Some (Inr [9, 7, 4], ())
   \<and> yields (gnext (fromArray [1, 2, 3] :: (int, nat, unit) Iter)) (fresh (fromArray [1, 2, 3] :: (int, nat, unit) Iter)) () [1, 2]
       = Some (2, ())
   \<and> yields (gnext (scan (\<lambda>a b. a - b) 10 (fromArray [1, 2, 3] :: (int, nat, unit) Iter)))
        (fresh (scan (\<lambda>a b. a - b) 10 (fromArray [1, 2, 3] :: (int, nat, unit) Iter))) () [9, 7]
       = Some ((7, 2), ())"
proof -
  have p: "produces (gnext (fromArray [1, 2, 3] :: (int, nat, unit) Iter)) (fresh (fromArray [1, 2, 3] :: (int, nat, unit) Iter))
             () [1, 2, 3] ()"
    by (simp add: fromArray_def fromArray_next_def)
  have y: "yields (gnext (fromArray [1, 2, 3] :: (int, nat, unit) Iter)) (fresh (fromArray [1, 2, 3] :: (int, nat, unit) Iter)) () [1, 2]
       = Some (2, ())"
    by (simp add: fromArray_def fromArray_next_def)
  from scan_collect [where P = "fromArray [1, 2, 3] :: (int, nat, unit) Iter" and w = "()" and xs = "[1, 2, 3]"
      and w' = "()" and f = "\<lambda>a b. a - b" and initial = 10,
      THEN conjunct1, THEN mp, OF p, THEN conjunct1]
  have a: "collect (scan (\<lambda>a b. a - b) 10 (fromArray [1, 2, 3] :: (int, nat, unit) Iter)) () = Some (Inr [9, 7, 4], ())"
    by (simp add: upt_conv_Cons)
  have l: "map (\<lambda>k. foldl (\<lambda>a b. a - b) 10 (take (Suc k) [1, 2 :: int])) [0..<length [1, 2 :: int]]
      = [9, 7 :: int]"
    by (simp add: upt_conv_Cons)
  have r: "foldl (\<lambda>a b. a - b) 10 [1, 2 :: int] = (7 :: int)" by simp
  from scan_collect [where P = "fromArray [1, 2, 3] :: (int, nat, unit) Iter" and w = "()" and xs = "[1, 2]"
      and w' = "()" and s' = 2 and f = "\<lambda>a b. a - b" and initial = 10,
      THEN conjunct2, THEN conjunct1, THEN mp, OF y]
  have b: "yields (gnext (scan (\<lambda>a b. a - b) 10 (fromArray [1, 2, 3] :: (int, nat, unit) Iter)))
        (fresh (scan (\<lambda>a b. a - b) 10 (fromArray [1, 2, 3] :: (int, nat, unit) Iter))) () [9, 7]
       = Some ((7, 2), ())"
    by (simp only: l r)
  from p a y b show ?thesis by blast
qed

subsection \<open>C4: partition\<close>

text \<open>
  Claim C4. For every predicate \<open>p\<close> and every finite re-invocable source \<open>S\<close> with
  elements \<open>xs\<close>, \<open>partition(p)\<close> returns two sequences: the first collects to the
  elements of \<open>S\<close> that satisfy \<open>p\<close>, the second to those that do not, each in source
  order (\<open>filter\<close> keeps the order), whatever world each of them is collected in, hence
  in whichever order the two are traversed. Together the two outputs contain every
  element of \<open>S\<close> exactly once: their multiset union is the multiset of \<open>xs\<close>.
\<close>

theorem partition_complement:
  assumes "reinvocable (gnext S)" and "produces (gnext S) (fresh S) w xs w'"
  shows "(\<exists>v'. collect (fst (partition_Iter p S)) v = Some (Inr (filter p xs), v'))
    \<and> (\<exists>u'. collect (snd (partition_Iter p S)) u = Some (Inr (filter (\<lambda>x. \<not> p x) xs), u'))
    \<and> mset (filter p xs) + mset (filter (\<lambda>x. \<not> p x) xs) = mset xs"
proof (intro conjI)
  from produces_any_world [OF assms, of v] obtain v'
    where "produces (gnext S) (fresh S) v xs v'" by blast
  from collect_truthy [OF this]
  show "\<exists>v'. collect (fst (partition_Iter p S)) v = Some (Inr (filter p xs), v')" by blast
next
  from produces_any_world [OF assms, of u] obtain u'
    where "produces (gnext S) (fresh S) u xs u'" by blast
  from collect_falsy [OF this]
  show "\<exists>u'. collect (snd (partition_Iter p S)) u = Some (Inr (filter (\<lambda>x. \<not> p x) xs), u')"
    by blast
next
  show "mset (filter p xs) + mset (filter (\<lambda>x. \<not> p x) xs) = mset xs"
    by (induction xs) simp_all
qed

text \<open>
  The hypotheses of claim C4 hold for \<open>fromArray([0,1,2,3,4])\<close> under a spy, split by
  evenness; the second branch is collected in the world the first one left.
\<close>

theorem partition_complement_witness:
  "reinvocable (gnext (inspect spy (fromArray [0, 1, 2, 3, 4]) :: (int, nat, int list) Iter))
   \<and> produces (gnext (inspect spy (fromArray [0, 1, 2, 3, 4]) :: (int, nat, int list) Iter))
        (fresh (inspect spy (fromArray [0, 1, 2, 3, 4]) :: (int, nat, int list) Iter))
        [] [0, 1, 2, 3, 4] [0, 1, 2, 3, 4]
   \<and> (\<exists>v'. collect (fst (partition_Iter even
                 (inspect spy (fromArray [0, 1, 2, 3, 4]) :: (int, nat, int list) Iter))) []
              = Some (Inr [0, 2, 4], v'))
   \<and> (\<exists>u'. collect (snd (partition_Iter even
                 (inspect spy (fromArray [0, 1, 2, 3, 4]) :: (int, nat, int list) Iter)))
                 [0, 1, 2, 3, 4]
              = Some (Inr [1, 3], u'))"
proof -
  let ?S = "inspect spy (fromArray [0, 1, 2, 3, 4]) :: (int, nat, int list) Iter"
  have r: "reinvocable (gnext ?S)"
    by (simp add: inspect_def fromArray_def reinvocable_inspect reinvocable_fromArray)
  have p: "produces (gnext ?S) (fresh ?S) [] [0, 1, 2, 3, 4] [0, 1, 2, 3, 4]"
    by (simp add: inspect_def inspect_next_def fromArray_def fromArray_next_def spy_def)
  from partition_complement [OF r p, of even "[]" "[0, 1, 2, 3, 4]"] r p
  show ?thesis by simp
qed

subsection \<open>C5: pairwise\<close>

text \<open>
  Claim C5, as amended. For every finite source with elements \<open>xs\<close> whose consecutive
  pairs the host can clone (the clone of \<open>[a, b]\<close> succeeds and equals \<open>[a, b]\<close>),
  \<open>pairwise()\<close> yields exactly the overlapping consecutive pairs \<open>[e\<^sub>0,e\<^sub>1], [e\<^sub>1,e\<^sub>2], ...\<close>
  in order, \<open>length xs - 1\<close> of them (none for a source of length 0 or 1, whatever its
  elements are). With the host's \<open>structuredClone\<close> this holds for every array of
  cloneable values, and \<open>fromArray([0,1,2,3,4]).pairwise().collect()\<close> is
  \<open>[[0,1],[1,2],[2,3],[3,4]]\<close>.
\<close>

theorem pairwise_collect_cloneable:
  "(produces (gnext P) (fresh P) w xs w'
      \<and> (\<forall>(a, b)\<in>set (zip xs (tl xs)). clone [a, b] = Inr [a, b]) \<longrightarrow>
      collect (pairwise_Iter clone P) w
        = Some (Inr (map (\<lambda>(a, b). [a, b]) (zip xs (tl xs))), w')
      \<and> length (map (\<lambda>(a, b). [a, b]) (zip xs (tl xs))) = length xs - 1)
   \<and> (list_all cloneable ys \<longrightarrow>
      collect (pairwise_Iter structuredClone (fromArray ys)) w
        = Some (Inr (map (\<lambda>(a, b). [a, b]) (zip ys (tl ys))), w))
   \<and> collect (pairwise_Iter clone (fromArray [])) w = Some (Inr [], w)
   \<and> collect (pairwise_Iter clone (fromArray [x])) w = Some (Inr [], w)
   \<and> collect (pairwise_Iter structuredClone (fromArray (map JNumber [0, 1, 2, 3, 4]))) w
       = Some (Inr [[JNumber 0, JNumber 1], [JNumber 1, JNumber 2],
                    [JNumber 2, JNumber 3], [JNumber 3, JNumber 4]], w)"
proof (intro conjI impI)
  assume "produces (gnext P) (fresh P) w xs w'
      \<and> (\<forall>(a, b)\<in>set (zip xs (tl xs)). clone [a, b] = Inr [a, b])"
  then show "collect (pairwise_Iter clone P) w
        = Some (Inr (map (\<lambda>(a, b). [a, b]) (zip xs (tl xs))), w')"
    using collect_pairwise [of P w xs w' clone] by blast
next
  show "length (map (\<lambda>(a, b). [a, b]) (zip xs (tl xs))) = length xs - 1"
    by simp
next
  assume "list_all cloneable ys"
  from collect_pairwise [OF produces_fromArray_fresh structuredClone_cloneable [OF this]]
  show "collect (pairwise_Iter structuredClone (fromArray ys)) w
        = Some (Inr (map (\<lambda>(a, b). [a, b]) (zip ys (tl ys))), w)" .
next
  show "collect (pairwise_Iter clone (fromArray [])) w = Some (Inr [], w)"
    using collect_pairwise [OF produces_fromArray_fresh, of "[]" clone w] by simp
next
  show "collect (pairwise_Iter clone (fromArray [x])) w = Some (Inr [], w)"
    using collect_pairwise [OF produces_fromArray_fresh, of "[x]" clone w] by simp
next
  have "list_all cloneable (map JNumber [0, 1, 2, 3, 4])" by simp
  from collect_pairwise [OF produces_fromArray_fresh structuredClone_cloneable [OF this], of w]
  show "collect (pairwise_Iter structuredClone (fromArray (map JNumber [0, 1, 2, 3, 4]))) w
       = Some (Inr [[JNumber 0, JNumber 1], [JNumber 1, JNumber 2],
                    [JNumber 2, JNumber 3], [JNumber 3, JNumber 4]], w)"
    by simp
qed

text \<open>
  The hypotheses of the amended claim C5 hold for the strings \<open>a, b, c\<close> (the test
  suite's \<open>fromIterable('abc')\<close>) and for an array holding a number and a nested array.
\<close>

theorem pairwise_collect_cloneable_witness:
  "produces (gnext (fromArray [JString ''a'', JString ''b'', JString ''c''] :: (jsval, nat, unit) Iter))
     (fresh (fromArray [JString ''a'', JString ''b'', JString ''c''] :: (jsval, nat, unit) Iter))
     () [JString ''a'', JString ''b'', JString ''c''] ()
   \<and> structuredClone [JString ''a'', JString ''b''] = Inr [JString ''a'', JString ''b'']
   \<and> structuredClone [JString ''b'', JString ''c''] = Inr [JString ''b'', JString ''c'']
   \<and> collect (pairwise_Iter structuredClone
        (fromArray [JString ''a'', JString ''b'', JString ''c''] :: (jsval, nat, unit) Iter)) ()
       = Some (Inr [[JString ''a'', JString ''b''], [JString ''b'', JString ''c'']], ())
   \<and> list_all cloneable [JNumber 7, JArray [JNumber 1, JString ''x'']]
   \<and> collect (pairwise_Iter structuredClone
        (fromArray [JNumber 7, JArray [JNumber 1, JString ''x'']] :: (jsval, nat, unit) Iter)) ()
       = Some (Inr [[JNumber 7, JArray [JNumber 1, JString ''x'']]], ())"
proof -
  let ?xs = "[JString ''a'', JString ''b'', JString ''c'']"
  let ?P = "fromArray ?xs :: (jsval, nat, unit) Iter"
  let ?ys = "[JNumber 7, JArray [JNumber 1, JString ''x'']]"
  have p: "produces (gnext ?P) (fresh ?P) () ?xs ()"
    by (simp add: fromArray_def fromArray_next_def)
  have c1: "structuredClone [JString ''a'', JString ''b''] = Inr [JString ''a'', JString ''b'']"
    and c2: "structuredClone [JString ''b'', JString ''c''] = Inr [JString ''b'', JString ''c'']"
    by (simp_all add: structuredClone_def)
  have h: "\<forall>(a, b)\<in>set (zip ?xs (tl ?xs)). structuredClone [a, b] = Inr [a, b]"
    using c1 c2 by simp
  from pairwise_collect_cloneable [where P = ?P and w = "()" and xs = ?xs and w' = "()"
      and clone = structuredClone, THEN conjunct1, THEN mp, OF conjI, OF p h, THEN conjunct1]
  have a: "collect (pairwise_Iter structuredClone ?P) ()
       = Some (Inr [[JString ''a'', JString ''b''], [JString ''b'', JString ''c'']], ())"
    by simp
  have l: "list_all cloneable ?ys" by simp
  from pairwise_collect_cloneable [where ys = ?ys and w = "()",
      THEN conjunct2, THEN conjunct1, THEN mp, OF l]
  have b: "collect (pairwise_Iter structuredClone (fromArray ?ys :: (jsval, nat, unit) Iter)) ()
       = Some (Inr [[JNumber 7, JArray [JNumber 1, JString ''x'']]], ())"
    by simp
  from p c1 c2 a l b show ?thesis by blast
qed

text \<open>
  Claim C5 as stated fails: it promises \<open>max(k - 1, 0)\<close> pairs for every finite source.
  The source \<open>fromArray([f, g])\<close> of two function values has length 2, and
  \<open>pairwise().collect()\<close> does not return the one pair \<open>[[f, g]]\<close>: the structured clone
  of the pair throws \<open>DataCloneError\<close>.
\<close>

theorem pairwise_every_source_counterexample:
  "collect (pairwise_Iter structuredClone
      (fromArray [JFunction 0, JFunction 1] :: (jsval, nat, unit) Iter)) ()
     = Some (Inl DataCloneError, ())
   \<and> collect (pairwise_Iter structuredClone
      (fromArray [JFunction 0, JFunction 1] :: (jsval, nat, unit) Iter)) ()
     \<noteq> Some (Inr [[JFunction 0, JFunction 1]], ())"
proof -
  let ?P = "fromArray [JFunction 0, JFunction 1] :: (jsval, nat, unit) Iter"
  have y: "yields (gnext ?P) (fresh ?P) () [JFunction 0, JFunction 1] = Some (2, ())"
    by (simp add: fromArray_def fromArray_next_def)
  have c: "structuredClone [JFunction 0, JFunction 1] = Inl DataCloneError"
    by (simp add: structuredClone_def)
  from collect_pairwise_throws [where clone = structuredClone, OF y c]
  show ?thesis by simp
qed

subsection \<open>C6: reduce and fold\<close>

text \<open>
  Claim C6. For every sequence, every binary function \<open>f\<close> (nothing is assumed of it,
  associative or not) and every initial value \<open>i\<close>, \<open>reduce(f, i)\<close> and \<open>fold(i, f)\<close>
  return the identical result: they agree on every parent in every world (also where
  the traversal throws or never returns). On a finite sequence with elements \<open>xs\<close> the
  result of both is the left fold \<open>foldl f i xs\<close>, the final accumulator after applying
  \<open>f\<close> to each element in order from \<open>i\<close>; on the empty sequence both return \<open>i\<close>.
\<close>

theorem reduce_fold_equivalent:
  "reduce f i P w = fold_Iter i f P w
   \<and> (produces (gnext P) (fresh P) w xs w' \<longrightarrow>
        reduce f i P w = Some (Inr (foldl f i xs), w')
        \<and> fold_Iter i f P w = Some (Inr (foldl f i xs), w'))
   \<and> reduce f i (fromArray []) w = Some (Inr i, w)
   \<and> fold_Iter i f (fromArray []) w = Some (Inr i, w)"
proof (intro conjI impI)
  show "reduce f i P w = fold_Iter i f P w"
    by (simp add: reduce_def fold_Iter_def reduce_loop_eq_fold_loop)
next
  assume "produces (gnext P) (fresh P) w xs w'"
  then show "reduce f i P w = Some (Inr (foldl f i xs), w')"
    by (simp add: reduce_def reduce_loop_produces)
next
  assume "produces (gnext P) (fresh P) w xs w'"
  then show "fold_Iter i f P w = Some (Inr (foldl f i xs), w')"
    by (simp add: fold_Iter_def fold_loop_produces)
next
  have "produces (gnext (fromArray [])) (fresh (fromArray [])) w [] w"
    by (simp add: fromArray_def fromArray_next_def)
  then show "reduce f i (fromArray []) w = Some (Inr i, w)"
    using reduce_loop_produces [of "gnext (fromArray [])" "fresh (fromArray [])" w "[]" w f i]
    by (simp add: reduce_def)
next
  have "produces (gnext (fromArray [])) (fresh (fromArray [])) w [] w"
    by (simp add: fromArray_def fromArray_next_def)
  then show "fold_Iter i f (fromArray []) w = Some (Inr i, w)"
    using fold_loop_produces [of "gnext (fromArray [])" "fresh (fromArray [])" w "[]" w f i]
    by (simp add: fold_Iter_def)
qed

text \<open>
  The hypothesis of claim C6 holds for \<open>fromArray([1,2,3])\<close>; with the non-associative
  subtraction from 10 both operations return 4.
\<close>

theorem reduce_fold_equivalent_witness:
  "produces (gnext (fromArray [1, 2, 3] :: (int, nat, unit) Iter))
     (fresh (fromArray [1, 2, 3] :: (int, nat, unit) Iter)) () [1, 2, 3] ()
   \<and> reduce (\<lambda>a b. a - b) 10 (fromArray [1, 2, 3] :: (int, nat, unit) Iter) () = Some (Inr 4, ())
   \<and> fold_Iter 10 (\<lambda>a b. a - b) (fromArray [1, 2, 3] :: (int, nat, unit) Iter) () = Some (Inr 4, ())"
proof -
  let ?P = "fromArray [1, 2, 3] :: (int, nat, unit) Iter"
  have p: "produces (gnext ?P) (fresh ?P) () [1, 2, 3] ()"
    by (simp add: fromArray_def fromArray_next_def)
  from reduce_fold_equivalent [where P = ?P and w = "()" and xs = "[1, 2, 3]" and w' = "()"
      and f = "\<lambda>a b. a - b" and i = 10, THEN conjunct2, THEN conjunct1, THEN mp, OF p] p
  show ?thesis by simp
qed

subsection \<open>C7: every\<close>

text \<open>
  Claim C7. For every finite sequence with elements \<open>xs\<close> and every predicate,
  \<open>every(pred)\<close> (the spec's \<open>all\<close>) returns \<open>true\<close> if and only if every element
  satisfies the predicate: its result is \<open>list_all p xs\<close>; it is \<open>true\<close> on the empty
  sequence. It short-circuits: when the parent yields \<open>xs\<close>, all passing, and then an
  element \<open>x\<close> that fails, the result is \<open>false\<close> and the world is left as it was right
  after \<open>x\<close> was pulled, also for a parent that never ends; a spy directly upstream
  has seen the passing prefix and the first failing element, and nothing after it.
\<close>

theorem every_short_circuits:
  "(produces (gnext P) (fresh P) w xs w' \<longrightarrow>
      (\<exists>w''. every p P w = Some (Inr (list_all p xs), w'')))
   \<and> (produces (gnext P) (fresh P) w xs w' \<and> list_all p xs \<longrightarrow>
      every p P w = Some (Inr True, w'))
   \<and> (yields (gnext P) (fresh P) w (xs @ [x]) = Some (s', v) \<and> list_all p xs \<and> \<not> p x \<longrightarrow>
      every p P w = Some (Inr False, v))
   \<and> every p (inspect spy (fromArray ys)) calls
       = Some (Inr (list_all p ys), calls @ takeWhile p ys @ take 1 (dropWhile p ys))
   \<and> every p (fromArray []) w = Some (Inr True, w)"
proof (intro conjI impI)
  assume "produces (gnext P) (fresh P) w xs w'"
  from every_loop_produces [OF this, of p]
  show "\<exists>w''. every p P w = Some (Inr (list_all p xs), w'')"
    by (simp add: every_def)
next
  assume "produces (gnext P) (fresh P) w xs w' \<and> list_all p xs"
  then show "every p P w = Some (Inr True, w')"
    using every_loop_all [of "gnext P" "fresh P" w xs w' p]
    by (simp add: every_def list_all_iff)
next
  assume "yields (gnext P) (fresh P) w (xs @ [x]) = Some (s', v) \<and> list_all p xs \<and> \<not> p x"
  then show "every p P w = Some (Inr False, v)"
    using every_loop_fail [of "gnext P" "fresh P" w xs x s' v p]
    by (simp add: every_def list_all_iff)
next
  show "every p (inspect spy (fromArray ys)) calls
       = Some (Inr (list_all p ys), calls @ takeWhile p ys @ take 1 (dropWhile p ys))"
    using every_loop_spy_fromArray [of p ys 0 calls]
    by (simp add: every_def inspect_def fromArray_def)
next
  show "every p (fromArray []) w = Some (Inr True, w)"
    using every_loop_all [of "fromArray_next []" 0 w "[]" w p]
    by (simp add: every_def fromArray_def fromArray_next_def)
qed

text \<open>
  The hypotheses of claim C7 hold for \<open>fromArray([0,1,2,3])\<close> (the test suite's range)
  and for a spy over \<open>[0,2,3,4,5]\<close>, where \<open>every(even)\<close> stops at \<open>3\<close>.
\<close>

theorem every_short_circuits_witness:
  "produces (gnext (fromArray [0, 1, 2, 3] :: (int, nat, unit) Iter))
     (fresh (fromArray [0, 1, 2, 3] :: (int, nat, unit) Iter)) () [0, 1, 2, 3] ()
   \<and> list_all (\<lambda>x. x < 10) [0, 1, 2, 3 :: int]
   \<and> every (\<lambda>x. x < 10) (fromArray [0, 1, 2, 3] :: (int, nat, unit) Iter) () = Some (Inr True, ())
   \<and> (\<exists>w''. every even (fromArray [0, 1, 2, 3] :: (int, nat, unit) Iter) () = Some (Inr False, w''))
   \<and> yields (gnext (inspect spy (fromArray [0, 2, 3, 4, 5]) :: (int, nat, int list) Iter))
        (fresh (inspect spy (fromArray [0, 2, 3, 4, 5]) :: (int, nat, int list) Iter)) []
        ([0, 2] @ [3]) = Some (3, [0, 2, 3])
   \<and> list_all even [0, 2 :: int] \<and> \<not> even (3 :: int)
   \<and> every even (inspect spy (fromArray [0, 2, 3, 4, 5]) :: (int, nat, int list) Iter) []
       = Some (Inr False, [0, 2, 3])"
proof -
  let ?P = "fromArray [0, 1, 2, 3] :: (int, nat, unit) Iter"
  let ?Q = "inspect spy (fromArray [0, 2, 3, 4, 5]) :: (int, nat, int list) Iter"
  have p: "produces (gnext ?P) (fresh ?P) () [0, 1, 2, 3] ()"
    by (simp add: fromArray_def fromArray_next_def)
  have l: "list_all (\<lambda>x. x < 10) [0, 1, 2, 3 :: int]" by simp
  have y: "yields (gnext ?Q) (fresh ?Q) [] ([0, 2] @ [3]) = Some (3, [0, 2, 3])"
    by (simp add: inspect_def inspect_next_def fromArray_def fromArray_next_def spy_def)
  have e: "list_all even [0, 2 :: int]" and o: "\<not> even (3 :: int)" by simp_all
  from every_short_circuits [where P = ?P and w = "()" and xs = "[0, 1, 2, 3]" and w' = "()"
      and p = "\<lambda>x. x < 10", THEN conjunct2, THEN conjunct1, THEN mp, OF conjI, OF p l]
  have a: "every (\<lambda>x. x < 10) ?P () = Some (Inr True, ())" .
  from every_short_circuits [where P = ?P and w = "()" and xs = "[0, 1, 2, 3]" and w' = "()"
      and p = even, THEN conjunct1, THEN mp, OF p]
  have b: "\<exists>w''. every even ?P () = Some (Inr False, w'')" by simp
  from every_short_circuits [where P = ?Q and w = "[]" and xs = "[0, 2]" and x = 3 and s' = 3
      and v = "[0, 2, 3]" and p = even,
      THEN conjunct2, THEN conjunct2, THEN conjunct1, THEN mp, OF conjI, OF y, OF conjI, OF e o]
  have c: "every even ?Q [] = Some (Inr False, [0, 2, 3])" .
  from p l a b y e o c show ?thesis by blast
qed

subsection \<open>C8: traversing twice\<close>

text \<open>
  Claim C8. Traversing the same \<open>Iter\<close> twice gives two complete, identical,
  independent traversals. \<open>collect()\<close> starts each time from the fresh generator that
  \<open>factory()\<close> returns, so the only thing the second call can see of the first is the
  world it left. For every \<open>Iter\<close> whose producer is re-invocable, whenever the first
  \<open>collect()\<close> returns \<open>r\<close> (an array, or an exception), the second call, made in the
  world the first one left, returns the same \<open>r\<close>. \<open>fromArray\<close> and \<open>range\<close> are
  re-invocable, and \<open>map\<close>, \<open>filter\<close>, \<open>take\<close>, \<open>scan\<close>, \<open>inspect\<close>, \<open>pairwise\<close> and both
  branches of \<open>partition\<close> keep a producer re-invocable, so this covers every chain of
  combinators over such a source. In particular \<open>collect()\<close> twice on
  \<open>fromArray([1,2,3])\<close> returns \<open>[1,2,3]\<close> both times.
\<close>

theorem collect_twice_same:
  "(reinvocable (gnext it) \<and> collect it w = Some (r, v) \<longrightarrow>
      (\<exists>u. collect_twice it w = Some ((r, r), u)))
   \<and> collect_twice (fromArray xs) w = Some ((Inr xs, Inr xs), w)
   \<and> collect_twice (fromArray [1, 2, 3 :: int]) w = Some ((Inr [1, 2, 3], Inr [1, 2, 3]), w)
   \<and> reinvocable (gnext (fromArray xs))
   \<and> reinvocable (gnext (range_Iter a b))
   \<and> (reinvocable (gnext it) \<longrightarrow>
        reinvocable (gnext (map_Iter f it))
        \<and> reinvocable (gnext (filter_Iter p it))
        \<and> reinvocable (gnext (take_Iter n it))
        \<and> reinvocable (gnext (scan g i it))
        \<and> reinvocable (gnext (inspect h it))
        \<and> reinvocable (gnext (pairwise_Iter clone it))
        \<and> reinvocable (gnext (fst (partition_Iter p it)))
        \<and> reinvocable (gnext (snd (partition_Iter p it))))"
proof (intro conjI impI)
  assume "reinvocable (gnext it) \<and> collect it w = Some (r, v)"
  then show "\<exists>u. collect_twice it w = Some ((r, r), u)"
    using collect_twice_reinvocable [of it w r v] by simp
next
  show "collect_twice (fromArray xs) w = Some ((Inr xs, Inr xs), w)"
    by (simp add: collect_twice_def collect_fromArray)
next
  show "collect_twice (fromArray [1, 2, 3 :: int]) w = Some ((Inr [1, 2, 3], Inr [1, 2, 3]), w)"
    by (simp add: collect_twice_def collect_fromArray)
next
  show "reinvocable (gnext (fromArray xs))"
    by (simp add: fromArray_def reinvocable_fromArray)
next
  show "reinvocable (gnext (range_Iter a b))"
    by (simp add: range_Iter_def reinvocable_range)
next
  assume "reinvocable (gnext it)"
  then show "reinvocable (gnext (map_Iter f it))"
    by (simp add: map_Iter_def reinvocable_map)
next
  assume "reinvocable (gnext it)"
  then show "reinvocable (gnext (filter_Iter p it))"
    by (simp add: filter_Iter_def reinvocable_filter)
next
  assume "reinvocable (gnext it)"
  then show "reinvocable (gnext (take_Iter n it))"
    by (simp add: take_Iter_def reinvocable_take)
next
  assume "reinvocable (gnext it)"
  then show "reinvocable (gnext (scan g i it))"
    by (simp add: scan_def reinvocable_scan)
next
  assume "reinvocable (gnext it)"
  then show "reinvocable (gnext (inspect h it))"
    by (simp add: inspect_def reinvocable_inspect)
next
  assume "reinvocable (gnext it)"
  then show "reinvocable (gnext (pairwise_Iter clone it))"
    by (simp add: pairwise_Iter_def reinvocable_pairwise)
next
  assume "reinvocable (gnext it)"
  then show "reinvocable (gnext (fst (partition_Iter p it)))"
    by (simp add: partition_Iter_def reinvocable_truthy)
next
  assume "reinvocable (gnext it)"
  then show "reinvocable (gnext (snd (partition_Iter p it)))"
    by (simp add: partition_Iter_def reinvocable_falsy)
qed

text \<open>
  The hypotheses of claim C8 hold for the chain
  \<open>fromArray([1,2,3,4]).inspect(spy).filter(even).take(2)\<close>: the first \<open>collect()\<close>
  returns \<open>[2,4]\<close> and leaves the spy's four calls behind, the second returns \<open>[2,4]\<close>
  again.
\<close>

theorem collect_twice_same_witness:
  "reinvocable (gnext (take_Iter 2 (filter_Iter even
       (inspect spy (fromArray [1, 2, 3, 4]) :: (int, nat, int list) Iter))))
   \<and> collect (take_Iter 2 (filter_Iter even
       (inspect spy (fromArray [1, 2, 3, 4]) :: (int, nat, int list) Iter))) []
       = Some (Inr [2, 4], [1, 2, 3, 4])
   \<and> (\<exists>u. collect_twice (take_Iter 2 (filter_Iter even
       (inspect spy (fromArray [1, 2, 3, 4]) :: (int, nat, int list) Iter))) []
       = Some ((Inr [2, 4], Inr [2, 4]), u))"
proof -
  let ?S = "inspect spy (fromArray [1, 2, 3, 4]) :: (int, nat, int list) Iter"
  let ?C = "take_Iter 2 (filter_Iter even ?S)"
  have r: "reinvocable (gnext ?C)"
    by (simp add: take_Iter_def filter_Iter_def inspect_def fromArray_def reinvocable_take
        reinvocable_filter reinvocable_inspect reinvocable_fromArray)
  have "produces (gnext ?S) (fresh ?S) [] [1, 2, 3, 4] [1, 2, 3, 4]"
    by (simp add: inspect_def inspect_next_def fromArray_def fromArray_next_def spy_def)
  from produces_take_short [OF produces_filter [OF this, of even], of 0 2]
  have "produces (gnext ?C) (fresh ?C) [] [2, 4] [1, 2, 3, 4]"
    by (simp add: take_Iter_def filter_Iter_def)
  from spread_produces [OF this, of "[]"]
  have c: "collect ?C [] = Some (Inr [2, 4], [1, 2, 3, 4])"
    by (simp add: collect_def)
  from collect_twice_same [where it = ?C and w = "[]" and r = "Inr [2, 4]" and v = "[1, 2, 3, 4]",
      THEN conjunct1, THEN mp, OF conjI, OF r c]
  have "\<exists>u. collect_twice ?C [] = Some ((Inr [2, 4], Inr [2, 4]), u)" .
  with r c show ?thesis by blast
qed

subsection \<open>C9: take pulls one element past its bound\<close>



subsection \<open>C10: pairwise and values that cannot be cloned\<close>

text \<open>
  Claim C10, as amended. \<open>pairwise()\<close> applies the host's structured clone to each pair
  and yields the clone's result, not its own array: when the source ends after \<open>xs\<close>
  and the clone of each consecutive pair \<open>[a, b]\<close> returns \<open>copy a b\<close>, the traversal
  collects exactly these copies, in order; and the first pull of a source that delivers
  \<open>x0, x1\<close> yields what the clone made of \<open>[x0, x1]\<close> and keeps \<open>[x1]\<close>. So for any
  source that delivers at least two elements, the first two of which the host cannot
  clone, the traversal throws on producing its first pair: \<open>collect()\<close> ends with the
  exception the clone raised, right after the second element was pulled, and no pair is
  yielded. With the host's \<open>structuredClone\<close> this is \<open>DataCloneError\<close> as soon as one of
  the first two elements is not cloneable (a function or a symbol). The other
  combinators never call the clone: over an array of any elements, cloneable or not,
  \<open>map\<close>, \<open>filter\<close>, \<open>take\<close>, \<open>scan\<close>, \<open>inspect\<close> and both branches of \<open>partition\<close> collect
  without an exception and pass the elements on.
\<close>

theorem pairwise_clones_or_throws:
  "(produces (gnext P) (fresh P) w xs w'
      \<and> (\<forall>(a, b)\<in>set (zip xs (tl xs)). clone [a, b] = Inr (copy a b)) \<longrightarrow>
      collect (pairwise_Iter clone P) w
        = Some (Inr (map (\<lambda>(a, b). copy a b) (zip xs (tl xs))), w'))
   \<and> (yields (gnext P) (fresh P) w [x0, x1] = Some (s', w') \<and> clone [x0, x1] = Inr c \<longrightarrow>
      gnext (pairwise_Iter clone P) (fresh (pairwise_Iter clone P)) w
        = Some (Yield c ([x1], s'), w'))
   \<and> (yields (gnext P) (fresh P) w [x0, x1] = Some (s', w') \<and> clone [x0, x1] = Inl e \<longrightarrow>
      collect (pairwise_Iter clone P) w = Some (Inl e, w'))
   \<and> (\<not> cloneable a \<or> \<not> cloneable b \<longrightarrow>
      collect (pairwise_Iter structuredClone (fromArray (a # b # rest))) w
        = Some (Inl DataCloneError, w))
   \<and> collect (map_Iter f (fromArray ys)) w = Some (Inr (map f ys), w)
   \<and> collect (filter_Iter p (fromArray ys)) w = Some (Inr (filter p ys), w)
   \<and> collect (take_Iter n (fromArray ys)) w = Some (Inr (take n ys), w)
   \<and> collect (scan g i (fromArray ys)) w
       = Some (Inr (map (\<lambda>k. foldl g i (take (Suc k) ys)) [0..<length ys]), w)
   \<and> collect (inspect h (fromArray ys)) w = Some (Inr ys, foldl (\<lambda>w x. h x w) w ys)
   \<and> collect (fst (partition_Iter p (fromArray ys))) w = Some (Inr (filter p ys), w)
   \<and> collect (snd (partition_Iter p (fromArray ys))) w
       = Some (Inr (filter (\<lambda>x. \<not> p x) ys), w)"
proof (intro conjI impI)
  assume "produces (gnext P) (fresh P) w xs w'
      \<and> (\<forall>(a, b)\<in>set (zip xs (tl xs)). clone [a, b] = Inr (copy a b))"
  then show "collect (pairwise_Iter clone P) w
        = Some (Inr (map (\<lambda>(a, b). copy a b) (zip xs (tl xs))), w')"
    using collect_pairwise_copies [of P w xs w' clone copy] by blast
next
  assume "yields (gnext P) (fresh P) w [x0, x1] = Some (s', w') \<and> clone [x0, x1] = Inr c"
  then have "pairwise_next clone (gnext P) [] (fresh P) w = Some (Yield c ([x1], s'), w')"
    using pairwise_first_yield [where clone = clone and pnext = "gnext P" and c = c] by blast
  then show "gnext (pairwise_Iter clone P) (fresh (pairwise_Iter clone P)) w
        = Some (Yield c ([x1], s'), w')"
    by (simp add: pairwise_Iter_def)
next
  assume "yields (gnext P) (fresh P) w [x0, x1] = Some (s', w') \<and> clone [x0, x1] = Inl e"
  then show "collect (pairwise_Iter clone P) w = Some (Inl e, w')"
    using collect_pairwise_throws [where clone = clone and P = P] by blast
next
  assume "\<not> cloneable a \<or> \<not> cloneable b"
  then show "collect (pairwise_Iter structuredClone (fromArray (a # b # rest))) w
        = Some (Inl DataCloneError, w)"
    by (rule collect_pairwise_uncloneable)
next
  show "collect (map_Iter f (fromArray ys)) w = Some (Inr (map f ys), w)"
    by (rule collect_map_fromArray)
next
  show "collect (filter_Iter p (fromArray ys)) w = Some (Inr (filter p ys), w)"
    by (rule collect_filter_fromArray)
next
  show "collect (take_Iter n (fromArray ys)) w = Some (Inr (take n ys), w)"
    by (rule collect_take_fromArray)
next
  show "collect (scan g i (fromArray ys)) w
       = Some (Inr (map (\<lambda>k. foldl g i (take (Suc k) ys)) [0..<length ys]), w)"
    by (rule collect_scan [OF produces_fromArray_fresh])
next
  show "collect (inspect h (fromArray ys)) w = Some (Inr ys, foldl (\<lambda>w x. h x w) w ys)"
    by (rule collect_inspect_fromArray)
next
  show "collect (fst (partition_Iter p (fromArray ys))) w = Some (Inr (filter p ys), w)"
    by (rule collect_truthy [OF produces_fromArray_fresh])
next
  show "collect (snd (partition_Iter p (fromArray ys))) w
       = Some (Inr (filter (\<lambda>x. \<not> p x) ys), w)"
    by (rule collect_falsy [OF produces_fromArray_fresh])
qed

text \<open>
  The hypotheses of the amended claim C10 hold. With a clone that returns its argument
  reversed, \<open>pairwise\<close> over \<open>[1,2,3]\<close> collects \<open>[[2,1],[3,2]]\<close> and its first pull yields
  \<open>[2,1]\<close>: what is yielded is the clone's result. With the host's clone, \<open>pairwise\<close>
  throws on an array with a symbol in second place and on an array of three functions;
  \<open>filter\<close> passes the functions through.
\<close>

theorem pairwise_clones_or_throws_witness:
  "produces (gnext (fromArray [1, 2, 3] :: (int, nat, unit) Iter))
     (fresh (fromArray [1, 2, 3] :: (int, nat, unit) Iter)) () [1, 2, 3] ()
   \<and> collect (pairwise_Iter (\<lambda>arr. Inr (rev arr)) (fromArray [1, 2, 3] :: (int, nat, unit) Iter)) ()
       = Some (Inr [[2, 1], [3, 2]], ())
   \<and> yields (gnext (fromArray [1, 2, 3] :: (int, nat, unit) Iter))
       (fresh (fromArray [1, 2, 3] :: (int, nat, unit) Iter)) () [1, 2] = Some (2, ())
   \<and> gnext (pairwise_Iter (\<lambda>arr. Inr (rev arr)) (fromArray [1, 2, 3] :: (int, nat, unit) Iter))
       (fresh (pairwise_Iter (\<lambda>arr. Inr (rev arr)) (fromArray [1, 2, 3] :: (int, nat, unit) Iter)))
       () = Some (Yield [2, 1] ([2], 2), ())
   \<and> yields (gnext (fromArray [JNumber 1, JSymbol 0, JNumber 2] :: (jsval, nat, unit) Iter))
       (fresh (fromArray [JNumber 1, JSymbol 0, JNumber 2] :: (jsval, nat, unit) Iter)) ()
       [JNumber 1, JSymbol 0] = Some (2, ())
   \<and> structuredClone [JNumber 1, JSymbol 0] = Inl DataCloneError
   \<and> collect (pairwise_Iter structuredClone
        (fromArray [JNumber 1, JSymbol 0, JNumber 2] :: (jsval, nat, unit) Iter)) ()
       = Some (Inl DataCloneError, ())
   \<and> \<not> cloneable (JFunction 0)
   \<and> collect (pairwise_Iter structuredClone
        (fromArray [JFunction 0, JFunction 1, JFunction 2] :: (jsval, nat, unit) Iter)) ()
       = Some (Inl DataCloneError, ())
   \<and> collect (filter_Iter (\<lambda>x. x \<noteq> JFunction 1)
        (fromArray [JFunction 0, JFunction 1, JFunction 2] :: (jsval, nat, unit) Iter)) ()
       = Some (Inr [JFunction 0, JFunction 2], ())"
proof -
  let ?A = "fromArray [1, 2, 3] :: (int, nat, unit) Iter"
  let ?r = "\<lambda>arr :: int list. Inr (rev arr) :: error + int list"
  let ?P = "fromArray [JNumber 1, JSymbol 0, JNumber 2] :: (jsval, nat, unit) Iter"
  have pa: "produces (gnext ?A) (fresh ?A) () [1, 2, 3] ()"
    by (simp add: fromArray_def fromArray_next_def)
  have ha: "\<forall>(a, b)\<in>set (zip [1, 2, 3 :: int] (tl [1, 2, 3])). ?r [a, b] = Inr ((\<lambda>a b. [b, a]) a b)"
    by simp
  have ya: "yields (gnext ?A) (fresh ?A) () [1, 2] = Some (2, ())"
    by (simp add: fromArray_def fromArray_next_def)
  have ca: "?r [1, 2] = Inr [2, 1]" by simp
  have y: "yields (gnext ?P) (fresh ?P) () [JNumber 1, JSymbol 0] = Some (2, ())"
    by (simp add: fromArray_def fromArray_next_def)
  have c: "structuredClone [JNumber 1, JSymbol 0] = Inl DataCloneError"
    by (simp add: structuredClone_def)
  have n: "\<not> cloneable (JFunction 0)" by simp
  then have d: "\<not> cloneable (JFunction 0) \<or> \<not> cloneable (JFunction 1)" by simp
  note t = pairwise_clones_or_throws
  from t [where P = ?A and w = "()" and xs = "[1, 2, 3]" and w' = "()" and clone = ?r
      and copy = "\<lambda>a b. [b, a]", THEN conjunct1, THEN mp, OF conjI, OF pa ha]
  have k: "collect (pairwise_Iter ?r ?A) () = Some (Inr [[2, 1], [3, 2]], ())"
    by simp
  from t [where P = ?A and w = "()" and ?x0.0 = 1 and ?x1.0 = 2 and s' = 2 and w' = "()"
      and clone = ?r and c = "[2, 1]",
      THEN conjunct2, THEN conjunct1, THEN mp, OF conjI, OF ya ca]
  have g: "gnext (pairwise_Iter ?r ?A) (fresh (pairwise_Iter ?r ?A)) ()
       = Some (Yield [2, 1] ([2], 2), ())" .
  from t [where P = ?P and w = "()" and ?x0.0 = "JNumber 1" and ?x1.0 = "JSymbol 0" and s' = 2
      and w' = "()" and clone = structuredClone and e = DataCloneError,
      THEN conjunct2, THEN conjunct2, THEN conjunct1, THEN mp, OF conjI, OF y c]
  have a: "collect (pairwise_Iter structuredClone ?P) () = Some (Inl DataCloneError, ())" .
  from t [where a = "JFunction 0" and b = "JFunction 1" and rest = "[JFunction 2]" and w = "()",
      THEN conjunct2, THEN conjunct2, THEN conjunct2, THEN conjunct1, THEN mp, OF d]
  have b: "collect (pairwise_Iter structuredClone
        (fromArray [JFunction 0, JFunction 1, JFunction 2] :: (jsval, nat, unit) Iter)) ()
       = Some (Inl DataCloneError, ())" .
  from t [where ys = "[JFunction 0, JFunction 1, JFunction 2]" and w = "()"
      and p = "\<lambda>x. x \<noteq> JFunction 1", THEN conjunct2, THEN conjunct2, THEN conjunct2,
      THEN conjunct2, THEN conjunct2, THEN conjunct1]
  have f: "collect (filter_Iter (\<lambda>x. x \<noteq> JFunction 1)
        (fromArray [JFunction 0, JFunction 1, JFunction 2] :: (jsval, nat, unit) Iter)) ()
       = Some (Inr [JFunction 0, JFunction 2], ())"
    by simp
  from pa k ya g y c a n b f show ?thesis by blast
qed

text \<open>
  Claim C10 as stated fails: it speaks of any source whose elements cannot be cloned. A
  source with one such element never fills a pair, so the clone is never called:
  \<open>fromArray([f]).pairwise().collect()\<close>, for a function \<open>f\<close>, returns \<open>[]\<close> and throws
  nothing. The same holds for the empty source.
\<close>

theorem pairwise_single_uncloneable_counterexample:
  "\<not> cloneable (JFunction 0)
   \<and> collect (pairwise_Iter structuredClone (fromArray [JFunction 0] :: (jsval, nat, unit) Iter)) ()
       = Some (Inr [], ())"
proof
  show "\<not> cloneable (JFunction 0)" by simp
next
  show "collect (pairwise_Iter structuredClone (fromArray [JFunction 0] :: (jsval, nat, unit) Iter)) ()
       = Some (Inr [], ())"
    using collect_pairwise [OF produces_fromArray_fresh, of "[JFunction 0]" structuredClone "()"]
    by simp
qed

end
